theory Spec2Isabelle
  imports Main
begin

section \<open>JavaScript strings and arrays\<close>

text \<open>
  A string is the list of the bytes of its UTF-8 encoding: an ASCII character is one
  byte, any other character two to four bytes, none of them an ASCII byte. Splitting at
  an ASCII character and looking for an ASCII substring are therefore the same on the
  bytes as on the characters. \<open>toUpperCase\<close> and the \<open>i\<close> flag of a regular expression
  are modelled on the letters \<open>a\<close> to \<open>z\<close>, which is exact for the regular expression
  (without the \<open>u\<close> flag it folds no other character onto an ASCII letter) and for
  the role labels, which are ASCII.
\<close>

definition toUpperCase_char :: "char \<Rightarrow> char" where
  "toUpperCase_char c =
     (case map_of (zip ''abcdefghijklmnopqrstuvwxyz'' ''ABCDEFGHIJKLMNOPQRSTUVWXYZ'') c of
        Some u \<Rightarrow> u
      | None \<Rightarrow> c)"

definition toUpperCase :: "string \<Rightarrow> string" where
  "toUpperCase s = map toUpperCase_char s"

fun startsWith :: "string \<Rightarrow> string \<Rightarrow> bool" where
  "startsWith s [] = True"
| "startsWith [] (p # ps) = False"
| "startsWith (c # cs) (p # ps) = (c = p \<and> startsWith cs ps)"

text \<open>\<open>s.includes(sub)\<close>: \<open>sub\<close> occurs in \<open>s\<close> as a contiguous substring.\<close>

fun str_includes :: "string \<Rightarrow> string \<Rightarrow> bool" where
  "str_includes [] sub = (sub = [])"
| "str_includes (c # cs) sub = (startsWith (c # cs) sub \<or> str_includes cs sub)"

text \<open>
  \<open>/story|original|creator|author/i.test(role)\<close>: one of the four words occurs in the
  role, letters compared without regard to case.
\<close>

definition staff_role_regex_test :: "string \<Rightarrow> bool" where
  "staff_role_regex_test r =
     (let u = toUpperCase r
      in str_includes u ''STORY'' \<or> str_includes u ''ORIGINAL'' \<or> str_includes u ''CREATOR''
         \<or> str_includes u ''AUTHOR'')"

text \<open>
  The characters that \<open>String.prototype.trim\<close> removes, each as its UTF-8 bytes: the
  white space of ECMAScript, which is U+0009, U+000B, U+000C, U+FEFF and the space
  separators U+0020, U+00A0, U+1680, U+2000 to U+200A, U+202F, U+205F and U+3000, and
  its line terminators U+000A, U+000D, U+2028 and U+2029.
\<close>

definition white_space :: "string list" where
  "white_space =
     [[CHR 0x09], [CHR 0x0A], [CHR 0x0B], [CHR 0x0C], [CHR 0x0D], [CHR 0x20],
      [CHR 0xC2, CHR 0xA0],
      [CHR 0xE1, CHR 0x9A, CHR 0x80],
      [CHR 0xE2, CHR 0x80, CHR 0x80], [CHR 0xE2, CHR 0x80, CHR 0x81],
      [CHR 0xE2, CHR 0x80, CHR 0x82], [CHR 0xE2, CHR 0x80, CHR 0x83],
      [CHR 0xE2, CHR 0x80, CHR 0x84], [CHR 0xE2, CHR 0x80, CHR 0x85],
      [CHR 0xE2, CHR 0x80, CHR 0x86], [CHR 0xE2, CHR 0x80, CHR 0x87],
      [CHR 0xE2, CHR 0x80, CHR 0x88], [CHR 0xE2, CHR 0x80, CHR 0x89],
      [CHR 0xE2, CHR 0x80, CHR 0x8A],
      [CHR 0xE2, CHR 0x80, CHR 0xA8], [CHR 0xE2, CHR 0x80, CHR 0xA9],
      [CHR 0xE2, CHR 0x80, CHR 0xAF],
      [CHR 0xE2, CHR 0x81, CHR 0x9F],
      [CHR 0xE3, CHR 0x80, CHR 0x80],
      [CHR 0xEF, CHR 0xBB, CHR 0xBF]]"

text \<open>
  Taking the characters \<open>ws\<close> from the front of a string for as long as it begins
  with one of them. Each step removes at least one byte.
\<close>

function strip_leading :: "string list \<Rightarrow> string \<Rightarrow> string" where
  "strip_leading ws s =
     (case find (\<lambda>w. w \<noteq> [] \<and> startsWith s w) ws of
        None \<Rightarrow> s
      | Some w \<Rightarrow> strip_leading ws (drop (length w) s))"
  by pat_completeness auto
termination
proof (relation "measure (\<lambda>(ws, s). length s)")
  show "wf (measure (\<lambda>(ws, s). length s))" by simp
next
  fix ws :: "string list" and s w :: string
  assume "find (\<lambda>w. w \<noteq> [] \<and> startsWith s w) ws = Some w"
  then have "w \<noteq> []" and "startsWith s w" by (auto simp: find_Some_iff)
  then have "s \<noteq> []" by (cases s; cases w) auto
  with \<open>w \<noteq> []\<close> show "((ws, drop (length w) s), (ws, s)) \<in> measure (\<lambda>(ws, s). length s)"
    by simp
qed

declare strip_leading.simps [simp del]

text \<open>
  \<open>s.trim()\<close>: the white space is taken from the front, and from the end by doing the
  same on the reversed string with the reversed characters.
\<close>

definition trim :: "string \<Rightarrow> string" where
  "trim s = rev (strip_leading (map rev white_space) (rev (strip_leading white_space s)))"

text \<open>
  \<open>Array.prototype.sort(cmp)\<close>. The sort is stable (ECMAScript 2019): elements that the
  comparator calls equal keep their order. It is modelled by insertion from the right,
  where an element is placed before the first element of the sorted rest that it does
  not have to follow.
\<close>

fun sort_insert :: "('a \<Rightarrow> 'a \<Rightarrow> int) \<Rightarrow> 'a \<Rightarrow> 'a list \<Rightarrow> 'a list" where
  "sort_insert cmp x [] = [x]"
| "sort_insert cmp x (y # ys) =
     (if cmp x y \<le> 0 then x # y # ys else y # sort_insert cmp x ys)"

definition array_sort :: "('a \<Rightarrow> 'a \<Rightarrow> int) \<Rightarrow> 'a list \<Rightarrow> 'a list" where
  "array_sort cmp xs = foldr (sort_insert cmp) xs []"

text \<open>\<open>parts.join(sep)\<close>.\<close>

fun join :: "string \<Rightarrow> string list \<Rightarrow> string" where
  "join sep [] = []"
| "join sep [x] = x"
| "join sep (x # y # ys) = x @ sep @ join sep (y # ys)"

text \<open>
  \<open>s.split(sep)\<close> for a separator of one character. The result is never empty:
  \<open>''.split(',')\<close> is \<open>['']\<close>; so the branch for an empty result of the rest is never
  taken.
\<close>

fun split :: "string \<Rightarrow> char \<Rightarrow> string list" where
  "split [] sep = [[]]"
| "split (c # cs) sep =
     (if c = sep then [] # split cs sep
      else (case split cs sep of
              r # rs \<Rightarrow> (c # r) # rs
            | [] \<Rightarrow> [[c]]))"

text \<open>A natural number in a template literal: its decimal digits.\<close>

definition digit_char :: "nat \<Rightarrow> char" where
  "digit_char d = (''0123456789'' ! d)"

fun decimal :: "nat \<Rightarrow> string" where
  "decimal n = (if n < 10 then [digit_char n] else decimal (n div 10) @ [digit_char (n mod 10)])"

declare decimal.simps [simp del]

text \<open>
  An exception: its \<open>name\<close> and its \<open>message\<close>. \<open>new Error(m)\<close> has the name
  \<open>Error\<close>; the rejection of an aborted \<open>fetch\<close> has the name \<open>AbortError\<close>.
\<close>

datatype js_error = JsError (err_name: string) (err_message: string)

text \<open>\<open>String(err)\<close>, as \<open>Error.prototype.toString\<close> builds it.\<close>

definition error_toString :: "js_error \<Rightarrow> string" where
  "error_toString e =
     (if err_name e = [] then err_message e
      else if err_message e = [] then err_name e
      else err_name e @ '': '' @ err_message e)"

text \<open>
  What the API sends back as JSON: \<open>{errors:[{message}...]}\<close>, of which the messages are
  kept, or \<open>{data:{Page:...}}\<close>. A payload of any other shape makes the code that reads
  it throw, and counts as an exception.
\<close>

datatype 'p payload = Errors "string list" | Data 'p

section \<open>Candidate selector (codice.php)\<close>

text \<open>
  A node as the API returns it. \<open>name_full\<close> is \<open>node.name?.full\<close> and \<open>image_medium\<close>
  is \<open>node.image?.medium\<close>: \<open>None\<close> when the object or the field is missing or null.
  \<open>favourites\<close> is \<open>None\<close> when the field is missing or null, and a number otherwise
  (the API's type is Int), so \<open>typeof node.favourites === 'number'\<close> is
  \<open>favourites n \<noteq> None\<close>.
\<close>

record node =
  name_full :: "string option"
  image_medium :: "string option"
  favourites :: "int option"

text \<open>An edge: a role label and a node, either of which may be missing.\<close>

record edge =
  role :: "string option"
  node :: "node option"

text \<open>An edge that passed \<open>e && e.node\<close>: its node is there.\<close>

record valid_edge =
  vrole :: "string option"
  vnode :: node

text \<open>
  \<open>edges.filter(e => e && e.node)\<close>, on an array whose entries may be null. The result
  is a new array.
\<close>

fun keep_valid :: "edge option list \<Rightarrow> valid_edge list" where
  "keep_valid [] = []"
| "keep_valid (None # es) = keep_valid es"
| "keep_valid (Some e # es) =
     (case node e of
        None \<Rightarrow> keep_valid es
      | Some n \<Rightarrow> \<lparr>vrole = role e, vnode = n\<rparr> # keep_valid es)"

text \<open>\<open>s || ''\<close> for a string that may be missing.\<close>

definition or_empty :: "string option \<Rightarrow> string" where
  "or_empty s = (case s of None \<Rightarrow> [] | Some t \<Rightarrow> t)"

text \<open>\<open>e.node.favourites || 0\<close>.\<close>

definition fav_or_0 :: "valid_edge \<Rightarrow> int" where
  "fav_or_0 e = (case favourites (vnode e) of None \<Rightarrow> 0 | Some f \<Rightarrow> f)"

text \<open>The comparator \<open>(a,b) => (b.node.favourites || 0) - (a.node.favourites || 0)\<close>.\<close>

definition by_favourites_desc :: "valid_edge \<Rightarrow> valid_edge \<Rightarrow> int" where
  "by_favourites_desc a b = fav_or_0 b - fav_or_0 a"

text \<open>\<open>e.role && String(e.role).toUpperCase().includes('MAIN')\<close>.\<close>

definition is_main :: "valid_edge \<Rightarrow> bool" where
  "is_main e = (case vrole e of None \<Rightarrow> False | Some r \<Rightarrow> r \<noteq> [] \<and> str_includes (toUpperCase r) ''MAIN'')"

definition has_numeric_fav :: "valid_edge \<Rightarrow> bool" where
  "has_numeric_fav e = (favourites (vnode e) \<noteq> None)"

text \<open>\<open>e.node && e.node.name && e.node.name.full\<close>: a name that is there and not empty.\<close>

definition has_name :: "valid_edge \<Rightarrow> bool" where
  "has_name e = (case name_full (vnode e) of None \<Rightarrow> False | Some s \<Rightarrow> s \<noteq> [])"

record protagonist =
  name :: string
  image :: string

definition protagonist_of :: "valid_edge \<Rightarrow> protagonist" where
  "protagonist_of e =
     \<lparr>name = or_empty (name_full (vnode e)), image = or_empty (image_medium (vnode e))\<rparr>"

text \<open>
  \<open>pickProtagonist(characters)\<close>. The argument is \<open>None\<close> when \<open>characters\<close> is missing
  or \<open>characters.edges\<close> is not an array; the result \<open>None\<close> is JavaScript's \<open>null\<close>.
  Where the source reads element 0 of an array, the array is known not to be empty and
  the branch for the empty array is never taken.
\<close>

definition pickProtagonist :: "edge option list option \<Rightarrow> protagonist option" where
  "pickProtagonist characters =
     (case characters of
        None \<Rightarrow> None
      | Some ces \<Rightarrow>
          let edges = keep_valid ces in
          if length edges = 0 then None
          else
            let mainEdges = filter is_main edges in
            if length mainEdges = 1 then
              (case mainEdges of e # _ \<Rightarrow> Some (protagonist_of e) | [] \<Rightarrow> None)
            else if length mainEdges > 1 then
              (case array_sort by_favourites_desc mainEdges of
                 e # _ \<Rightarrow> Some (protagonist_of e) | [] \<Rightarrow> None)
            else
              let edgesWithFav = filter has_numeric_fav edges in
              if length edgesWithFav > 0 then
                (case array_sort by_favourites_desc edgesWithFav of
                   e # _ \<Rightarrow> Some (protagonist_of e) | [] \<Rightarrow> None)
              else
                (case find has_name edges of
                   Some firstWithName \<Rightarrow> Some (protagonist_of firstWithName)
                 | None \<Rightarrow> None))"

text \<open>
  \<open>renderTable\<close> shows \<open>pickProtagonist(item.characters) || { name: '', image: '' }\<close>.
\<close>

definition shown_protagonist :: "edge option list option \<Rightarrow> protagonist" where
  "shown_protagonist characters =
     (case pickProtagonist characters of
        None \<Rightarrow> \<lparr>name = [], image = []\<rparr>
      | Some p \<Rightarrow> p)"

text \<open>
  What the specification means by "the highest favourite count, ties broken by original
  list order": \<open>e\<close> stands in \<open>xs\<close> at a place where everything before it has a strictly
  smaller key and nothing after it has a larger one.
\<close>

definition spec_highest_stable :: "('a \<Rightarrow> int) \<Rightarrow> 'a list \<Rightarrow> 'a \<Rightarrow> bool" where
  "spec_highest_stable key xs e =
     (\<exists>pre post. xs = pre @ e # post \<and> (\<forall>x\<in>set pre. key x < key e)
        \<and> (\<forall>x\<in>set post. key x \<le> key e))"

text \<open>An edge with a role, a name and a favourite count, and no image, for examples.\<close>

definition example_edge :: "string \<Rightarrow> string \<Rightarrow> int option \<Rightarrow> edge option" where
  "example_edge r nm f =
     Some \<lparr>role = Some r,
           node = Some \<lparr>name_full = Some nm, image_medium = None, favourites = f\<rparr>\<rparr>"

definition example_two_main :: "edge option list" where
  "example_two_main =
     [example_edge ''Main Character'' ''A'' (Some 500), example_edge ''MAIN'' ''B'' (Some 900)]"

definition example_300_700_200 :: "edge option list" where
  "example_300_700_200 =
     [example_edge ''SUPPORTING'' ''A'' (Some 300), example_edge ''SUPPORTING'' ''B'' (Some 700),
      example_edge ''BACKGROUND'' ''C'' (Some 200)]"

definition example_no_favourites :: "edge option list" where
  "example_no_favourites =
     [example_edge ''SUPPORTING'' [] None, example_edge ''SUPPORTING'' ''Alice'' None]"

definition example_mixed_case :: "edge option list" where
  "example_mixed_case =
     [example_edge ''SUPPORTING'' ''A'' (Some 900), example_edge ''Main'' ''B'' (Some 1)]"

definition example_no_candidate :: "edge option list" where
  "example_no_candidate =
     [None, Some \<lparr>role = Some ''MAIN'', node = None\<rparr>, example_edge ''SUPPORTING'' [] None]"

text \<open>\<open>e.role && /story|original|creator|author/i.test(e.role)\<close>.\<close>

definition has_creator_role :: "valid_edge \<Rightarrow> bool" where
  "has_creator_role e =
     (case vrole e of None \<Rightarrow> False | Some r \<Rightarrow> r \<noteq> [] \<and> staff_role_regex_test r)"

text \<open>The object \<open>{ name: ... }\<close> that \<open>pickMainStaff\<close> returns.\<close>

record main_staff =
  staff_name :: string

text \<open>
  \<open>pickMainStaff(staff)\<close>. When no role matches, \<open>candidates\<close> is \<open>edges\<close> itself, the
  array that the first \<open>filter\<close> made; the sort is applied to it. The sorted array has
  the length of \<open>candidates\<close>, which is not empty, so \<open>candidates[0]\<close> is there and the
  last branch below is never taken.
\<close>

definition pickMainStaff :: "edge option list option \<Rightarrow> main_staff option" where
  "pickMainStaff staff =
     (case staff of
        None \<Rightarrow> None
      | Some ses \<Rightarrow>
          let edges = keep_valid ses in
          if length edges = 0 then None
          else
            let candidates = filter has_creator_role edges;
                candidates = (if length candidates = 0 then edges else candidates)
            in (case array_sort by_favourites_desc candidates of
                  pick # _ \<Rightarrow> Some \<lparr>staff_name = or_empty (name_full (vnode pick))\<rparr>
                | [] \<Rightarrow> None))"

definition example_staff :: "edge option list" where
  "example_staff =
     [example_edge ''Art'' ''A'' (Some 900), example_edge ''Original Story'' ''B'' None,
      example_edge ''Story & Art'' ''C'' (Some 40), example_edge ''Author'' ''D'' (Some 40)]"

definition example_staff_no_role :: "edge option list" where
  "example_staff_no_role =
     [example_edge ''Art'' ''A'' (Some 7), None, example_edge ''Translator'' ''B'' (Some 9)]"

definition example_staff_invalid :: "edge option list" where
  "example_staff_invalid = [None, Some \<lparr>role = Some ''Story'', node = None\<rparr>]"

section \<open>Category search (codice.php)\<close>

text \<open>
  The variable \<open>state\<close>. \<open>currentFormat\<close> is \<open>None\<close> for \<open>null\<close>; the buttons set it to
  \<open>MANGA\<close>, \<open>NOVEL\<close>, \<open>MANHWA\<close> or \<open>MANHUA\<close>.
\<close>

record filter_state =
  currentFormat :: "string option"
  page :: nat
  perPage :: nat
  search :: string

text \<open>
  The \<open>variables\<close> object of the request. \<open>search\<close> is \<open>None\<close> for \<open>null\<close>;
  \<open>genre_not_in\<close> and \<open>country\<close> are \<open>None\<close> when the object has no such field.
\<close>

record variables =
  v_page :: nat
  v_perPage :: nat
  v_search :: "string option"
  v_format_in :: "string list"
  v_tag_not_in :: "string list"
  v_genre_not_in :: "string list option"
  v_country :: "string option"

definition DEFAULT_TAG_EXCLUDE :: "string list" where
  "DEFAULT_TAG_EXCLUDE =
     [''Hentai'', ''Ecchi'', ''Adult'', ''Erotica'', ''Sexual Content'', ''Nudity'']"

definition DEFAULT_GENRE_EXCLUDE :: "string list" where
  "DEFAULT_GENRE_EXCLUDE = []"

text \<open>The part of \<open>fetchData\<close> that builds \<open>variables\<close> from \<open>state\<close>.\<close>

definition build_variables :: "filter_state \<Rightarrow> variables" where
  "build_variables st =
     (let (format_in, country) =
            (if currentFormat st = Some ''NOVEL'' then ([''NOVEL''], None)
             else ([''MANGA''],
                   if currentFormat st = Some ''MANHWA'' then Some ''KR''
                   else if currentFormat st = Some ''MANHUA'' then Some ''CN''
                   else if currentFormat st = Some ''MANGA'' then Some ''JP''
                   else None))
      in \<lparr>v_page = page st,
          v_perPage = perPage st,
          v_search = (if search st = [] then None else Some (search st)),
          v_format_in = format_in,
          v_tag_not_in = DEFAULT_TAG_EXCLUDE,
          v_genre_not_in =
            (if length DEFAULT_GENRE_EXCLUDE \<noteq> 0 then Some DEFAULT_GENRE_EXCLUDE else None),
          v_country = (case country of None \<Rightarrow> None | Some c \<Rightarrow> if c = [] then None else Some c)\<rparr>)"

text \<open>A media item of the catalogue query, and the page the API returns.\<close>

record media_item =
  m_format :: "string option"
  m_title :: "string option"
  m_status :: "string option"
  m_chapters :: "nat option"
  m_countryOfOrigin :: "string option"
  m_coverImage :: "string option"
  m_characters :: "edge option list option"
  m_staff :: "edge option list option"

record cat_page_info =
  cpi_total :: "nat option"
  cpi_currentPage :: nat
  cpi_lastPage :: nat

record cat_page =
  cp_pageInfo :: "cat_page_info option"
  cp_media :: "media_item list"

text \<open>A row of the rendered table: the text or picture of each of its eight cells.\<close>

record table_row =
  r_format :: string
  r_title :: string
  r_status :: string
  r_chapters :: string
  r_country :: string
  r_protagonist :: protagonist
  r_creator :: string
  r_cover :: string

definition row_of :: "media_item \<Rightarrow> table_row" where
  "row_of item =
     \<lparr>r_format = or_empty (m_format item),
      r_title = or_empty (m_title item),
      r_status = or_empty (m_status item),
      r_chapters = (case m_chapters item of None \<Rightarrow> [] | Some n \<Rightarrow> decimal n),
      r_country = or_empty (m_countryOfOrigin item),
      r_protagonist = shown_protagonist (m_characters item),
      r_creator = (case pickMainStaff (m_staff item) of None \<Rightarrow> [] | Some s \<Rightarrow> staff_name s),
      r_cover = or_empty (m_coverImage item)\<rparr>"

text \<open>What \<open>tableHolder\<close> holds: nothing, the note that there is no result, or a table.\<close>

datatype 'r table_holder = Blank | NoResults | Table "'r list"

text \<open>
  The page as far as the script reads and writes it: \<open>state\<close>, the value of the search
  box, the status line, the error box, the table and the pager (\<open>None\<close> when hidden,
  else the page information its text is made of). \<open>c_requests\<close> records the
  \<open>variables\<close> of every request sent by \<open>fetch\<close>, in order.
\<close>

record cat_world =
  c_state :: filter_state
  c_searchInput :: string
  c_status :: string
  c_error_text :: string
  c_error_shown :: bool
  c_table :: "table_row table_holder"
  c_pager :: "cat_page_info option"
  c_requests :: "variables list"

definition setStatus :: "string \<Rightarrow> cat_world \<Rightarrow> cat_world" where
  "setStatus t w = w\<lparr>c_status := t\<rparr>"

definition setError :: "string \<Rightarrow> cat_world \<Rightarrow> cat_world" where
  "setError e w = w\<lparr>c_error_shown := (e \<noteq> []), c_error_text := e\<rparr>"

text \<open>
  \<open>fetchData()\<close>, given what the request comes back with: an exception (of \<open>fetch\<close> or
  of reading the body) or a payload. The status code is not looked at. The result is
  the page, or the exception that leaves the function.
\<close>

definition fetchData :: "cat_world \<Rightarrow> js_error + cat_page payload \<Rightarrow> cat_world \<times> (js_error + cat_page)" where
  "fetchData w response =
     (let w1 = (setStatus ''Caricamento...'' (setError [] w))\<lparr>c_table := Blank\<rparr>;
          w2 = w1\<lparr>c_requests := c_requests w1 @ [build_variables (c_state w1)]\<rparr>
      in case response of
           Inl err \<Rightarrow> (w2, Inl err)
         | Inr (Errors msgs) \<Rightarrow> (w2, Inl (JsError ''Error'' (join ''; '' msgs)))
         | Inr (Data p) \<Rightarrow> (w2, Inr p))"

definition cat_renderTable :: "media_item list \<Rightarrow> cat_page_info option \<Rightarrow> cat_world \<Rightarrow> cat_world" where
  "cat_renderTable mediaList pageInfo w =
     (if length mediaList = 0 then
        setStatus ''Nessun risultato trovati.'' (w\<lparr>c_table := NoResults, c_pager := None\<rparr>)
      else
        setStatus (''Mostrati '' @ decimal (length mediaList) @ '' risultati.'')
          (w\<lparr>c_table := Table (map row_of mediaList),
             c_pager := (case pageInfo of
                           None \<Rightarrow> None
                         | Some pi \<Rightarrow> if cpi_total pi \<noteq> None then Some pi else None)\<rparr>))"

text \<open>
  \<open>doSearch(page)\<close> of codice.php. \<open>!state.currentFormat\<close> holds for \<open>null\<close> and for the
  empty string.
\<close>

definition cat_doSearch :: "nat \<Rightarrow> js_error + cat_page payload \<Rightarrow> cat_world \<Rightarrow> cat_world" where
  "cat_doSearch pg response w =
     (if currentFormat (c_state w) = None \<or> currentFormat (c_state w) = Some [] then
        setError ''Seleziona una sottocategoria.'' w
      else
        let w1 = w\<lparr>c_state := (c_state w)\<lparr>page := pg, search := trim (c_searchInput w)\<rparr>\<rparr>
        in case fetchData w1 response of
             (w2, Inr pageData) \<Rightarrow> cat_renderTable (cp_media pageData) (cp_pageInfo pageData) w2
           | (w2, Inl err) \<Rightarrow>
               setStatus ''Errore durante il caricamento.''
                 (setError (if err_message err \<noteq> [] then err_message err
                            else error_toString err) w2))"

definition example_world :: "string option \<Rightarrow> string \<Rightarrow> cat_world" where
  "example_world fmt input =
     \<lparr>c_state = \<lparr>currentFormat = fmt, page = 1, perPage = 20, search = []\<rparr>,
      c_searchInput = input,
      c_status = ''Pronto. Seleziona una sottocategoria per caricare i risultati.'',
      c_error_text = [],
      c_error_shown = False,
      c_table = Blank,
      c_pager = None,
      c_requests = []\<rparr>"

section \<open>Free-text search with cache and cancellation (script.js)\<close>

text \<open>
  A \<open>Map\<close> keeps its entries in insertion order: \<open>set\<close> on a key that is there
  replaces the value in place, on a new key it appends; \<open>keys().next().value\<close> is the
  oldest key; \<open>size\<close> is the number of entries. A key occurs once: \<open>map_set\<close>
  keeps the keys distinct.
\<close>

fun map_set :: "('k \<times> 'v) list \<Rightarrow> 'k \<Rightarrow> 'v \<Rightarrow> ('k \<times> 'v) list" where
  "map_set [] k v = [(k, v)]"
| "map_set ((k', v') # m) k v =
     (if k' = k then (k, v) # m else (k', v') # map_set m k v)"

definition map_has :: "('k \<times> 'v) list \<Rightarrow> 'k \<Rightarrow> bool" where
  "map_has m k = (k \<in> set (map fst m))"

definition map_get :: "('k \<times> 'v) list \<Rightarrow> 'k \<Rightarrow> 'v option" where
  "map_get m k = map_of m k"

definition map_delete :: "('k \<times> 'v) list \<Rightarrow> 'k \<Rightarrow> ('k \<times> 'v) list" where
  "map_delete m k = filter (\<lambda>kv. fst kv \<noteq> k) m"

definition map_size :: "('k \<times> 'v) list \<Rightarrow> nat" where
  "map_size m = length m"

text \<open>The characters of the status texts that are not ASCII, as their UTF-8 bytes.\<close>

definition ellipsis :: string where
  "ellipsis = [CHR 0xE2, CHR 0x80, CHR 0xA6]"

definition em_dash :: string where
  "em_dash = [CHR 0xE2, CHR 0x80, CHR 0x94]"

record page_info =
  pi_total :: nat
  pi_currentPage :: nat
  pi_lastPage :: nat
  pi_hasNextPage :: bool
  pi_perPage :: nat

text \<open>\<open>payload.data.Page\<close>; the media items are not looked into here.\<close>

record 'm page_data =
  pageInfo :: page_info
  media :: "'m list"

text \<open>
  How a request ends: an exception of \<open>fetch\<close> or of reading the body (a network
  failure, a body that is not JSON, a payload of another shape), a response whose
  \<open>ok\<close> is false, with its status, body text and status text, or a JSON payload of a
  response whose \<open>ok\<close> is true. For a payload of another shape the exception is taken
  to be raised before anything is assigned.
\<close>

datatype 'm response =
    Thrown js_error
  | NotOk nat string string
  | Json "'m page_data payload"

text \<open>
  The variables of the script and the page as far as it reads and writes it.
  \<open>controllers\<close> holds the \<open>AbortController\<close> objects made so far, each as the
  \<open>aborted\<close> flag of its signal, and \<open>abortController\<close> refers to one of them by its
  position. \<open>fetch_calls\<close> counts the calls of \<open>fetch\<close>.
\<close>

record 'm widget =
  currentPage :: nat
  lastQuery :: string
  lastPageInfo :: "page_info option"
  abortController :: "nat option"
  controllers :: "bool list"
  cache :: "(string \<times> 'm page_data) list"
  searchInput_value :: string
  perPageSelect_value :: "nat option"
  statusEl :: string
  errorEl_shown :: bool
  errorEl_text :: string
  searchBtn_disabled :: bool
  tableHolder :: "'m table_holder"
  pager_shown :: bool
  pageInfo_shown :: "page_info option"
  prevBtn_disabled :: bool
  nextBtn_disabled :: bool
  fetch_calls :: nat

definition showError :: "string \<Rightarrow> 'm widget \<Rightarrow> 'm widget" where
  "showError msg s = s\<lparr>errorEl_shown := True, errorEl_text := msg\<rparr>"

definition clearError :: "'m widget \<Rightarrow> 'm widget" where
  "clearError s = s\<lparr>errorEl_shown := False, errorEl_text := []\<rparr>"

definition cacheKey_of :: "string \<Rightarrow> nat \<Rightarrow> nat \<Rightarrow> string" where
  "cacheKey_of search_text pg per = search_text @ ''|'' @ decimal pg @ ''|'' @ decimal per"

text \<open>
  \<open>fetchAnilist\<close> up to its first \<open>await\<close>. On a cache hit it returns the cached page
  (\<open>Inl\<close>). Otherwise it aborts the controller it holds, makes a new one, calls
  \<open>fetch\<close> with its signal and waits (\<open>Inr\<close> with the new controller).
\<close>

definition fetchAnilist_start ::
  "string \<Rightarrow> nat \<Rightarrow> nat \<Rightarrow> 'm widget \<Rightarrow> ('m page_data + nat) \<times> 'm widget" where
  "fetchAnilist_start search_text pg per s =
     (let s0 = (clearError s)\<lparr>statusEl := ''Caricamento'' @ ellipsis, searchBtn_disabled := True\<rparr>;
          cacheKey = cacheKey_of search_text pg per
      in case (if map_has (cache s0) cacheKey then map_get (cache s0) cacheKey else None) of
           Some cached \<Rightarrow>
             (Inl cached,
              s0\<lparr>lastPageInfo := Some (pageInfo cached),
                 statusEl := ''Dati dalla cache '' @ em_dash @ '' pagina ''
                    @ decimal (pi_currentPage (pageInfo cached)) @ ''/''
                    @ decimal (pi_lastPage (pageInfo cached)) @ '' '' @ em_dash @ '' ''
                    @ decimal (length (media cached)) @ '' risultati mostrati (tot ''
                    @ decimal (pi_total (pageInfo cached)) @ '')'',
                 searchBtn_disabled := False\<rparr>)
         | None \<Rightarrow>
             let s1 = (case abortController s0 of
                         None \<Rightarrow> s0
                       | Some c \<Rightarrow> s0\<lparr>controllers := (controllers s0)[c := True]\<rparr>);
                 signal = length (controllers s1);
                 s2 = s1\<lparr>controllers := controllers s1 @ [False],
                         abortController := Some signal,
                         fetch_calls := Suc (fetch_calls s1)\<rparr>
             in (Inr signal, s2))"

text \<open>
  The transport looks at the signal: once it is aborted, \<open>fetch\<close> and the reading of
  the body reject with an \<open>AbortError\<close>, whatever the server sent.
\<close>

definition signal_aborted :: "'m widget \<Rightarrow> nat \<Rightarrow> bool" where
  "signal_aborted s signal = (signal < length (controllers s) \<and> controllers s ! signal)"

definition settled_as :: "'m widget \<Rightarrow> nat \<Rightarrow> 'm response \<Rightarrow> 'm response" where
  "settled_as s signal response =
     (if signal_aborted s signal then Thrown (JsError ''AbortError'' ''The user aborted a request.'')
      else response)"

text \<open>The \<open>catch\<close> and \<open>finally\<close> blocks of \<open>fetchAnilist\<close>.\<close>

definition fetchAnilist_catch :: "js_error \<Rightarrow> 'm widget \<Rightarrow> 'm page_data option \<times> 'm widget" where
  "fetchAnilist_catch err s =
     (if err_name err = ''AbortError'' then
        (None, s\<lparr>statusEl := ''Richiesta annullata.'', searchBtn_disabled := False\<rparr>)
      else
        (None, (showError (''Errore: '' @ err_message err) s)
                 \<lparr>statusEl := ''Errore durante il caricamento.'', searchBtn_disabled := False\<rparr>))"

text \<open>
  \<open>fetchAnilist\<close> from the moment the request made with \<open>signal\<close> for \<open>cacheKey\<close> ends,
  to its return.
\<close>

definition fetchAnilist_settle ::
  "string \<Rightarrow> nat \<Rightarrow> 'm response \<Rightarrow> 'm widget \<Rightarrow> 'm page_data option \<times> 'm widget" where
  "fetchAnilist_settle cacheKey signal response s =
     (case settled_as s signal response of
        Thrown err \<Rightarrow> fetchAnilist_catch err s
      | NotOk status text statusText \<Rightarrow>
          fetchAnilist_catch
            (JsError ''Error'' (''HTTP '' @ decimal status @ '' '' @ em_dash @ '' ''
               @ (if text \<noteq> [] then text else statusText))) s
      | Json (Errors msgs) \<Rightarrow> fetchAnilist_catch (JsError ''Error'' (join ''; '' msgs)) s
      | Json (Data pageData) \<Rightarrow>
          let s1 = s\<lparr>lastPageInfo := Some (pageInfo pageData),
                     statusEl := ''Mostrati '' @ decimal (length (media pageData)) @ '' di ''
                        @ decimal (pi_total (pageInfo pageData)) @ '' risultati (pagina ''
                        @ decimal (pi_currentPage (pageInfo pageData)) @ ''/''
                        @ decimal (pi_lastPage (pageInfo pageData)) @ '')''\<rparr>;
              c1 = map_set (cache s1) cacheKey pageData;
              c2 = (if map_size c1 > 50 then
                      (case c1 of (firstKey, _) # _ \<Rightarrow> map_delete c1 firstKey | [] \<Rightarrow> c1)
                    else c1)
          in (Some pageData, s1\<lparr>cache := c2, searchBtn_disabled := False\<rparr>))"

text \<open>
  \<open>fetchAnilist(search, page, perPage)\<close> run from call to return with nothing in
  between, given how its request would end.
\<close>

definition fetchAnilist ::
  "string \<Rightarrow> nat \<Rightarrow> nat \<Rightarrow> 'm response \<Rightarrow> 'm widget \<Rightarrow> 'm page_data option \<times> 'm widget" where
  "fetchAnilist search_text pg per response s =
     (case fetchAnilist_start search_text pg per s of
        (Inl cached, s1) \<Rightarrow> (Some cached, s1)
      | (Inr signal, s1) \<Rightarrow>
          fetchAnilist_settle (cacheKey_of search_text pg per) signal response s1)"

definition clearTable :: "'m widget \<Rightarrow> 'm widget" where
  "clearTable s = s\<lparr>tableHolder := Blank, pager_shown := False\<rparr>"

definition renderTable :: "'m list \<Rightarrow> 'm widget \<Rightarrow> 'm widget" where
  "renderTable mediaArray s =
     (let s1 = clearTable s
      in if length mediaArray = 0 then s1\<lparr>tableHolder := NoResults\<rparr>
         else s1\<lparr>tableHolder := Table mediaArray\<rparr>)"

definition renderPager :: "'m widget \<Rightarrow> 'm widget" where
  "renderPager s =
     (case lastPageInfo s of
        None \<Rightarrow> s\<lparr>pager_shown := False\<rparr>
      | Some pi \<Rightarrow>
          if pi_lastPage pi \<le> 1 then s\<lparr>pager_shown := False\<rparr>
          else s\<lparr>pager_shown := True, pageInfo_shown := Some pi,
                 prevBtn_disabled := (pi_currentPage pi \<le> 1),
                 nextBtn_disabled := (\<not> pi_hasNextPage pi)\<rparr>)"

text \<open>\<open>doSearch\<close> of script.js after \<open>fetchAnilist\<close> has returned \<open>data\<close>.\<close>

definition doSearch_render :: "'m page_data option \<Rightarrow> 'm widget \<Rightarrow> 'm widget" where
  "doSearch_render data s =
     (case data of
        None \<Rightarrow> s
      | Some d \<Rightarrow> renderPager (renderTable (media d) s))"

text \<open>
  \<open>doSearch(page)\<close> of script.js up to the first \<open>await\<close>: \<open>None\<close> when it returned
  without a request in flight, else the cache key and the controller of the request.
  \<open>parseInt(...) || 20\<close> is 20 for a value that is not a number and for 0.
\<close>

definition doSearch_start :: "nat \<Rightarrow> 'm widget \<Rightarrow> (string \<times> nat) option \<times> 'm widget" where
  "doSearch_start pg s =
     (let q = trim (searchInput_value s)
      in if q = [] then (None, s\<lparr>statusEl := ''Inserisci un termine di ricerca.''\<rparr>)
         else
           let per = (case perPageSelect_value s of
                        None \<Rightarrow> 20
                      | Some n \<Rightarrow> if n = 0 then 20 else n);
               s1 = s\<lparr>currentPage := pg, lastQuery := q\<rparr>
           in case fetchAnilist_start q pg per s1 of
                (Inl cached, s2) \<Rightarrow> (None, doSearch_render (Some cached) s2)
              | (Inr signal, s2) \<Rightarrow> (Some (cacheKey_of q pg per, signal), s2))"

text \<open>\<open>doSearch\<close> from the moment its request ends.\<close>

definition doSearch_settle :: "string \<Rightarrow> nat \<Rightarrow> 'm response \<Rightarrow> 'm widget \<Rightarrow> 'm widget" where
  "doSearch_settle cacheKey signal response s =
     (case fetchAnilist_settle cacheKey signal response s of
        (data, s1) \<Rightarrow> doSearch_render data s1)"

text \<open>\<open>doSearch(page)\<close> run from call to return with nothing in between.\<close>

definition doSearch :: "nat \<Rightarrow> 'm response \<Rightarrow> 'm widget \<Rightarrow> 'm widget" where
  "doSearch pg response s =
     (case doSearch_start pg s of
        (None, s1) \<Rightarrow> s1
      | (Some (cacheKey, signal), s1) \<Rightarrow> doSearch_settle cacheKey signal response s1)"

text \<open>The widget after \<open>init\<close>, with the given text in the search box.\<close>

definition initial_widget :: "string \<Rightarrow> 'm widget" where
  "initial_widget input =
     \<lparr>currentPage = 1, lastQuery = [], lastPageInfo = None, abortController = None,
      controllers = [], cache = [], searchInput_value = input,
      perPageSelect_value = Some 20,
      statusEl = ''Pronto. Inserisci un termine e premi Cerca (o digita).'',
      errorEl_shown = False, errorEl_text = [], searchBtn_disabled = False,
      tableHolder = Blank, pager_shown = False, pageInfo_shown = None,
      prevBtn_disabled = False, nextBtn_disabled = False, fetch_calls = 0\<rparr>"

text \<open>A sequence of calls of \<open>fetchAnilist\<close>, each run to its end before the next.\<close>

fun resolve_all :: "(string \<times> nat \<times> nat \<times> 'm response) list \<Rightarrow> 'm widget \<Rightarrow> 'm widget" where
  "resolve_all [] s = s"
| "resolve_all ((search_text, pg, per, response) # rs) s =
     resolve_all rs (snd (fetchAnilist search_text pg per response s))"

definition example_page :: "nat \<Rightarrow> nat page_data" where
  "example_page n =
     \<lparr>pageInfo = \<lparr>pi_total = 100, pi_currentPage = n, pi_lastPage = 5, pi_hasNextPage = True,
                   pi_perPage = 20\<rparr>,
      media = [n]\<rparr>"

text \<open>The cache key of a call in such a sequence, and whether its request brings a page.\<close>

definition request_key :: "string \<times> nat \<times> nat \<times> 'm response \<Rightarrow> string" where
  "request_key rq = (case rq of (search_text, pg, per, response) \<Rightarrow> cacheKey_of search_text pg per)"

definition brings_page :: "string \<times> nat \<times> nat \<times> 'm response \<Rightarrow> bool" where
  "brings_page rq =
     (case rq of (search_text, pg, per, response) \<Rightarrow>
        (case response of Json (Data pd) \<Rightarrow> True | _ \<Rightarrow> False))"

text \<open>Fifty-one searches for \<open>q\<close>, pages 1 to 51, each answered with a page.\<close>

definition example_requests :: "(string \<times> nat \<times> nat \<times> nat response) list" where
  "example_requests = map (\<lambda>n. (''q'', n, 20, Json (Data (example_page n)))) [1..<52]"

text \<open>
  Two searches started one after the other from the initial widget, the second while
  the request of the first, made with controller 0, is still in flight.
\<close>

definition example_superseded :: "nat widget" where
  "example_superseded =
     snd (fetchAnilist_start ''b'' 1 20 (snd (fetchAnilist_start ''a'' 1 20 (initial_widget ''b''))))"

text \<open>
  The body of a response with the two errors \<open>bad\<close> and \<open>worse\<close>:
  \<open>{"errors":[{"message":"bad"},{"message":"worse"}]}\<close>.
\<close>

definition example_error_body :: string where
  "example_error_body =
     ''{'' @ [CHR 0x22] @ ''errors'' @ [CHR 0x22] @ '':[{'' @ [CHR 0x22] @ ''message''
     @ [CHR 0x22] @ '':'' @ [CHR 0x22] @ ''bad'' @ [CHR 0x22] @ ''},{'' @ [CHR 0x22]
     @ ''message'' @ [CHR 0x22] @ '':'' @ [CHR 0x22] @ ''worse'' @ [CHR 0x22] @ ''}]}''"

text \<open>The initial widget after one search has been started and is still in flight.\<close>

definition example_in_flight :: "nat widget" where
  "example_in_flight = snd (fetchAnilist_start ''a'' 1 20 (initial_widget ''b''))"

section \<open>CSV table (JavaScript.js)\<close>

text \<open>A cell of the table: a \<open>th\<close> or a \<open>td\<close> element with its \<open>textContent\<close>.\<close>

datatype cell_tag = TH | TD

text \<open>\<open>text.trim().split("\n").map(r => r.split(","))\<close>.\<close>

definition csv_rows :: "string \<Rightarrow> string list list" where
  "csv_rows text = map (\<lambda>r. split r CHR '','') (split (trim text) CHR 0x0A)"

text \<open>
  \<open>rows.forEach((row, rowIndex) => ...)\<close> from \<open>rowIndex\<close> on: one \<open>tr\<close> for each row,
  with one cell for each entry.
\<close>

fun render_rows :: "nat \<Rightarrow> string list list \<Rightarrow> (cell_tag \<times> string) list list" where
  "render_rows rowIndex [] = []"
| "render_rows rowIndex (row # rows) =
     map (\<lambda>cell. (if rowIndex = 0 then TH else TD, trim cell)) row
     # render_rows (Suc rowIndex) rows"

text \<open>\<open>reader.onload\<close>: the rows of the table, which is emptied first, for the text read.\<close>

definition reader_onload :: "string \<Rightarrow> (cell_tag \<times> string) list list" where
  "reader_onload text = render_rows 0 (csv_rows text)"

definition example_csv :: string where
  "example_csv = '' name, age'' @ [CHR 0x0D, CHR 0x0A] @ ''Ann ,3,'' @ [CHR 0x0A] @ '' ''"

text \<open>
  The text \<open>id,\<close> U+00A0 \<open>name\<close>, line feed, \<open>1,\<close> U+2003 \<open>x\<close> U+FEFF, line feed,
  U+2028.
\<close>

definition example_csv_unicode :: string where
  "example_csv_unicode =
     ''id,'' @ [CHR 0xC2, CHR 0xA0] @ ''name'' @ [CHR 0x0A]
     @ ''1,'' @ [CHR 0xE2, CHR 0x80, CHR 0x83] @ ''x'' @ [CHR 0xEF, CHR 0xBB, CHR 0xBF]
     @ [CHR 0x0A] @ [CHR 0xE2, CHR 0x80, CHR 0xA8]"

section \<open>The selectors on a heap of arrays and objects\<close>

text \<open>
  To say that \<open>pickProtagonist\<close> and \<open>pickMainStaff\<close> leave their argument alone, arrays
  and edge objects are put on a heap. An array is a list of entries, each \<open>null\<close>
  (\<open>None\<close>) or a reference to an edge object; \<open>next_array\<close> is where the next new array
  goes. \<open>filter\<close> makes a new array; \<open>sort\<close> reorders the array it is called on.
\<close>

record heap =
  arrays :: "nat \<Rightarrow> nat option list option"
  objects :: "nat \<Rightarrow> edge option"
  next_array :: nat

definition elements :: "heap \<Rightarrow> nat \<Rightarrow> nat option list" where
  "elements h a = (case arrays h a of None \<Rightarrow> [] | Some els \<Rightarrow> els)"

text \<open>The edge an entry refers to, and that edge with its node if both are there.\<close>

definition deref :: "heap \<Rightarrow> nat option \<Rightarrow> edge option" where
  "deref h el = (case el of None \<Rightarrow> None | Some r \<Rightarrow> objects h r)"

definition valid_at :: "heap \<Rightarrow> nat option \<Rightarrow> valid_edge option" where
  "valid_at h el =
     (case deref h el of
        None \<Rightarrow> None
      | Some e \<Rightarrow> (case node e of None \<Rightarrow> None | Some n \<Rightarrow> Some \<lparr>vrole = role e, vnode = n\<rparr>))"

text \<open>A test or a key of a valid edge, applied to an entry of an array of valid edges.\<close>

definition holds_at :: "heap \<Rightarrow> (valid_edge \<Rightarrow> bool) \<Rightarrow> nat option \<Rightarrow> bool" where
  "holds_at h p el = (case valid_at h el of None \<Rightarrow> False | Some v \<Rightarrow> p v)"

definition compare_at :: "heap \<Rightarrow> nat option \<Rightarrow> nat option \<Rightarrow> int" where
  "compare_at h a b =
     (case (valid_at h a, valid_at h b) of
        (Some x, Some y) \<Rightarrow> by_favourites_desc x y
      | _ \<Rightarrow> 0)"

definition array_filter :: "(nat option \<Rightarrow> bool) \<Rightarrow> nat \<Rightarrow> heap \<Rightarrow> nat \<times> heap" where
  "array_filter p a h =
     (next_array h,
      h\<lparr>arrays := (arrays h)(next_array h \<mapsto> filter p (elements h a)),
        next_array := Suc (next_array h)\<rparr>)"

definition array_sort_in_place :: "(nat option \<Rightarrow> nat option \<Rightarrow> int) \<Rightarrow> nat \<Rightarrow> heap \<Rightarrow> heap" where
  "array_sort_in_place cmp a h = h\<lparr>arrays := (arrays h)(a \<mapsto> array_sort cmp (elements h a))\<rparr>"

text \<open>
  \<open>pickProtagonist\<close> on the heap. The argument is the address of \<open>characters.edges\<close>,
  or \<open>None\<close> when \<open>characters\<close> is missing or \<open>edges\<close> is not an array.
\<close>

definition pickProtagonist_heap :: "nat option \<Rightarrow> heap \<Rightarrow> protagonist option \<times> heap" where
  "pickProtagonist_heap characters h =
     (case characters of
        None \<Rightarrow> (None, h)
      | Some ces \<Rightarrow>
          let (edges, h1) = array_filter (\<lambda>el. valid_at h el \<noteq> None) ces h in
          if length (elements h1 edges) = 0 then (None, h1)
          else
            let (mainEdges, h2) = array_filter (holds_at h1 is_main) edges h1 in
            if length (elements h2 mainEdges) = 1 then
              (case elements h2 mainEdges of
                 e # _ \<Rightarrow> (map_option protagonist_of (valid_at h2 e), h2)
               | [] \<Rightarrow> (None, h2))
            else if length (elements h2 mainEdges) > 1 then
              let h3 = array_sort_in_place (compare_at h2) mainEdges h2 in
              (case elements h3 mainEdges of
                 e # _ \<Rightarrow> (map_option protagonist_of (valid_at h3 e), h3)
               | [] \<Rightarrow> (None, h3))
            else
              let (edgesWithFav, h3) = array_filter (holds_at h2 has_numeric_fav) edges h2 in
              if length (elements h3 edgesWithFav) > 0 then
                let h4 = array_sort_in_place (compare_at h3) edgesWithFav h3 in
                (case elements h4 edgesWithFav of
                   e # _ \<Rightarrow> (map_option protagonist_of (valid_at h4 e), h4)
                 | [] \<Rightarrow> (None, h4))
              else
                (case find (holds_at h3 has_name) (elements h3 edges) of
                   Some firstWithName \<Rightarrow>
                     (map_option protagonist_of (valid_at h3 firstWithName), h3)
                 | None \<Rightarrow> (None, h3)))"

text \<open>
  \<open>pickMainStaff\<close> on the heap. When no role matches, \<open>candidates\<close> is the same array
  as \<open>edges\<close>, and that array is sorted.
\<close>

definition pickMainStaff_heap :: "nat option \<Rightarrow> heap \<Rightarrow> main_staff option \<times> heap" where
  "pickMainStaff_heap staff h =
     (case staff of
        None \<Rightarrow> (None, h)
      | Some ses \<Rightarrow>
          let (edges, h1) = array_filter (\<lambda>el. valid_at h el \<noteq> None) ses h in
          if length (elements h1 edges) = 0 then (None, h1)
          else
            let (matching, h2) = array_filter (holds_at h1 has_creator_role) edges h1;
                candidates = (if length (elements h2 matching) = 0 then edges else matching);
                h3 = array_sort_in_place (compare_at h2) candidates h2
            in (case elements h3 candidates of
                  pick # _ \<Rightarrow>
                    (map_option (\<lambda>v. \<lparr>staff_name = or_empty (name_full (vnode v))\<rparr>)
                       (valid_at h3 pick), h3)
                | [] \<Rightarrow> (None, h3)))"

text \<open>
  A heap holding the edges of \<open>example_staff_no_role\<close> as objects 0 and 1 and the array
  of the three entries at address 0.
\<close>

definition example_heap :: heap where
  "example_heap =
     \<lparr>arrays = (\<lambda>a. if a = 0 then Some [Some 0, None, Some 1] else None),
      objects = (\<lambda>r. if r = 0 then example_edge ''Art'' ''A'' (Some 7)
                      else if r = 1 then example_edge ''Translator'' ''B'' (Some 9)
                      else None),
      next_array = 1\<rparr>"

text \<open>
  \<open>kept h0 h\<close>: on the way from the heap \<open>h0\<close> to the heap \<open>h\<close> every array that was
  there in \<open>h0\<close> and every object stayed as it was, and arrays were only added.
\<close>

definition kept :: "heap \<Rightarrow> heap \<Rightarrow> bool" where
  "kept h0 h =
     (next_array h0 \<le> next_array h \<and> (\<forall>a<next_array h0. arrays h a = arrays h0 a)
      \<and> objects h = objects h0)"

section \<open>Substrings and the stable sort\<close>

lemma startsWith_iff: "startsWith s p \<longleftrightarrow> (\<exists>post. s = p @ post)"
  by (induction s p rule: startsWith.induct) auto

lemma str_includes_iff: "str_includes s sub \<longleftrightarrow> (\<exists>pre post. s = pre @ sub @ post)"
proof (induction s)
  case Nil
  then show ?case by auto
next
  case (Cons c cs)
  show ?case
  proof
    assume "str_includes (c # cs) sub"
    then consider "startsWith (c # cs) sub" | "str_includes cs sub" by auto
    then show "\<exists>pre post. c # cs = pre @ sub @ post"
    proof cases
      case 1
      then obtain post where "c # cs = sub @ post" by (auto simp: startsWith_iff)
      then have "c # cs = [] @ sub @ post" by simp
      then show ?thesis by blast
    next
      case 2
      then obtain pre post where "cs = pre @ sub @ post" using Cons.IH by auto
      then have "c # cs = (c # pre) @ sub @ post" by simp
      then show ?thesis by blast
    qed
  next
    assume "\<exists>pre post. c # cs = pre @ sub @ post"
    then obtain pre post where eq: "c # cs = pre @ sub @ post" by blast
    show "str_includes (c # cs) sub"
    proof (cases pre)
      case Nil
      with eq have "startsWith (c # cs) sub" by (auto simp: startsWith_iff)
      then show ?thesis by simp
    next
      case (Cons p pre')
      with eq have "cs = pre' @ sub @ post" by simp
      then have "str_includes cs sub" using Cons.IH by blast
      then show ?thesis by simp
    qed
  qed
qed

lemma sort_insert_head:
  "\<exists>rest. sort_insert cmp x ys = (case ys of [] \<Rightarrow> x | y # _ \<Rightarrow> if cmp x y \<le> 0 then x else y) # rest"
  by (cases ys) auto

lemma array_sort_Cons: "array_sort cmp (x # xs) = sort_insert cmp x (array_sort cmp xs)"
  by (simp add: array_sort_def)

lemma array_sort_desc_head:
  "xs \<noteq> [] \<Longrightarrow>
   \<exists>e rest. array_sort (\<lambda>a b. key b - key a) xs = e # rest \<and> spec_highest_stable key xs e"
proof (induction xs)
  case Nil
  then show ?case by simp
next
  case (Cons x xs)
  let ?cmp = "\<lambda>a b. key b - key a"
  show ?case
  proof (cases xs)
    case Nil
    have "spec_highest_stable key [x] x"
      unfolding spec_highest_stable_def by (rule exI [of _ "[]"], rule exI [of _ "[]"]) simp
    with Nil show ?thesis by (simp add: array_sort_def)
  next
    case (Cons y ys)
    then have "xs \<noteq> []" by simp
    with Cons.IH obtain e rest where
      srt: "array_sort ?cmp xs = e # rest" and hs: "spec_highest_stable key xs e" by blast
    from hs obtain pre post where
      xs: "xs = pre @ e # post" and pre: "\<forall>z\<in>set pre. key z < key e"
      and post: "\<forall>z\<in>set post. key z \<le> key e"
      unfolding spec_highest_stable_def by blast
    show ?thesis
    proof (cases "key e \<le> key x")
      case True
      then have "array_sort ?cmp (x # xs) = x # e # rest"
        by (simp add: array_sort_Cons srt)
      moreover have "spec_highest_stable key (x # xs) x"
        unfolding spec_highest_stable_def
      proof (intro exI conjI)
        show "x # xs = [] @ x # xs" by simp
        show "\<forall>z\<in>set []. key z < key x" by simp
        show "\<forall>z\<in>set xs. key z \<le> key x" using True pre post xs by fastforce
      qed
      ultimately show ?thesis by blast
    next
      case False
      then have "array_sort ?cmp (x # xs) = e # sort_insert ?cmp x rest"
        by (simp add: array_sort_Cons srt)
      moreover have "spec_highest_stable key (x # xs) e"
        unfolding spec_highest_stable_def
      proof (intro exI conjI)
        show "x # xs = (x # pre) @ e # post" using xs by simp
        show "\<forall>z\<in>set (x # pre). key z < key e" using False pre by auto
        show "\<forall>z\<in>set post. key z \<le> key e" by (rule post)
      qed
      ultimately show ?thesis by blast
    qed
  qed
qed

lemma spec_highest_stable_unique:
  assumes "spec_highest_stable key xs e" and "spec_highest_stable key xs e'"
  shows "e = e'"
proof -
  from assms(1) obtain pre post where
    a: "xs = pre @ e # post" "\<forall>x\<in>set pre. key x < key e" "\<forall>x\<in>set post. key x \<le> key e"
    unfolding spec_highest_stable_def by blast
  from assms(2) obtain pre' post' where
    b: "xs = pre' @ e' # post'" "\<forall>x\<in>set pre'. key x < key e'" "\<forall>x\<in>set post'. key x \<le> key e'"
    unfolding spec_highest_stable_def by blast
  from a(1) b(1) have eq: "pre @ e # post = pre' @ e' # post'" by simp
  then consider us where "pre = pre' @ us" "us @ e # post = e' # post'"
    | us where "pre @ us = pre'" "e # post = us @ e' # post'"
    by (auto simp: append_eq_append_conv2)
  then show ?thesis
  proof cases
    case 1
    show ?thesis
    proof (cases us)
      case Nil
      with 1 show ?thesis by simp
    next
      case (Cons u us')
      with 1 have "e' \<in> set pre" and "e \<in> set post'" by auto
      with a(2) b(3) show ?thesis by fastforce
    qed
  next
    case 2
    show ?thesis
    proof (cases us)
      case Nil
      with 2 show ?thesis by simp
    next
      case (Cons u us')
      with 2 have "e \<in> set pre'" and "e' \<in> set post" by auto
      with a(3) b(2) show ?thesis by fastforce
    qed
  qed
qed


section \<open>Protagonist selection\<close>

lemma by_favourites_desc_eq: "by_favourites_desc = (\<lambda>a b. fav_or_0 b - fav_or_0 a)"
  by (intro ext) (simp add: by_favourites_desc_def)

lemma array_sort_single: "array_sort cmp [x] = [x]"
  by (simp add: array_sort_def)

lemma pick_sorted_head:
  assumes "xs \<noteq> []"
  shows "\<exists>e. spec_highest_stable fav_or_0 xs e
           \<and> (case array_sort by_favourites_desc xs of
                 e # _ \<Rightarrow> Some (protagonist_of e) | [] \<Rightarrow> None) = Some (protagonist_of e)"
proof -
  from array_sort_desc_head [OF assms, of fav_or_0] obtain e rest where
    "array_sort by_favourites_desc xs = e # rest" and "spec_highest_stable fav_or_0 xs e"
    unfolding by_favourites_desc_eq by blast
  then show ?thesis by auto
qed

lemma find_first:
  "filter P xs \<noteq> [] \<Longrightarrow>
   \<exists>pre e post. xs = pre @ e # post \<and> P e \<and> (\<forall>x\<in>set pre. \<not> P x) \<and> find P xs = Some e"
proof (induction xs)
  case Nil
  then show ?case by simp
next
  case (Cons x xs)
  show ?case
  proof (cases "P x")
    case True
    then have "x # xs = [] @ x # xs \<and> P x \<and> (\<forall>z\<in>set []. \<not> P z) \<and> find P (x # xs) = Some x"
      by simp
    then show ?thesis by blast
  next
    case False
    with Cons.prems have "filter P xs \<noteq> []" by simp
    with Cons.IH obtain pre e post where
      "xs = pre @ e # post" "P e" "\<forall>z\<in>set pre. \<not> P z" "find P xs = Some e" by blast
    with False have "x # xs = (x # pre) @ e # post \<and> P e \<and> (\<forall>z\<in>set (x # pre). \<not> P z)
        \<and> find P (x # xs) = Some e" by simp
    then show ?thesis by blast
  qed
qed

lemma find_none: "filter P xs = [] \<Longrightarrow> find P xs = None"
  by (induction xs) (auto split: if_splits)

lemma pick_main:
  assumes "filter is_main (keep_valid ces) \<noteq> []"
  shows "\<exists>e. spec_highest_stable fav_or_0 (filter is_main (keep_valid ces)) e
           \<and> pickProtagonist (Some ces) = Some (protagonist_of e)"
proof -
  let ?m = "filter is_main (keep_valid ces)"
  from assms have ne: "keep_valid ces \<noteq> []" by auto
  from pick_sorted_head [OF assms] obtain e where
    e: "spec_highest_stable fav_or_0 ?m e"
    and hd: "(case array_sort by_favourites_desc ?m of
                 e # _ \<Rightarrow> Some (protagonist_of e) | [] \<Rightarrow> None) = Some (protagonist_of e)"
    by blast
  show ?thesis
  proof (cases "length ?m = 1")
    case True
    then obtain x where x: "?m = [x]" by (cases ?m) auto
    with hd have "protagonist_of x = protagonist_of e" by (simp add: array_sort_single)
    with x ne have "pickProtagonist (Some ces) = Some (protagonist_of e)"
      by (simp add: pickProtagonist_def)
    with e show ?thesis by blast
  next
    case False
    with assms have "1 < length ?m" by (cases ?m) auto
    with ne hd have "pickProtagonist (Some ces) = Some (protagonist_of e)"
      by (simp add: pickProtagonist_def Let_def)
    with e show ?thesis by blast
  qed
qed

lemma pick_fav:
  assumes "filter is_main (keep_valid ces) = []"
    and "filter has_numeric_fav (keep_valid ces) \<noteq> []"
  shows "\<exists>e. spec_highest_stable fav_or_0 (filter has_numeric_fav (keep_valid ces)) e
           \<and> favourites (vnode e) = Some (fav_or_0 e)
           \<and> pickProtagonist (Some ces) = Some (protagonist_of e)"
proof -
  let ?f = "filter has_numeric_fav (keep_valid ces)"
  from assms(2) have ne: "keep_valid ces \<noteq> []" by auto
  from pick_sorted_head [OF assms(2)] obtain e where
    e: "spec_highest_stable fav_or_0 ?f e"
    and hd: "(case array_sort by_favourites_desc ?f of
                 e # _ \<Rightarrow> Some (protagonist_of e) | [] \<Rightarrow> None) = Some (protagonist_of e)"
    by blast
  from e obtain pre post where "?f = pre @ e # post"
    unfolding spec_highest_stable_def by blast
  then have "e \<in> set ?f" by simp
  then have "favourites (vnode e) = Some (fav_or_0 e)"
    by (auto simp: has_numeric_fav_def fav_or_0_def)
  moreover from ne assms hd have "pickProtagonist (Some ces) = Some (protagonist_of e)"
    by (simp add: pickProtagonist_def Let_def)
  ultimately show ?thesis using e by blast
qed

lemma pick_named:
  assumes "filter is_main (keep_valid ces) = []"
    and "filter has_numeric_fav (keep_valid ces) = []"
    and "filter has_name (keep_valid ces) \<noteq> []"
  shows "\<exists>pre e post. keep_valid ces = pre @ e # post \<and> has_name e
           \<and> (\<forall>x\<in>set pre. \<not> has_name x)
           \<and> pickProtagonist (Some ces) = Some (protagonist_of e)"
proof -
  from assms(3) have ne: "keep_valid ces \<noteq> []" by auto
  from find_first [OF assms(3)] obtain pre e post where
    d: "keep_valid ces = pre @ e # post" "has_name e" "\<forall>x\<in>set pre. \<not> has_name x"
    and f: "find has_name (keep_valid ces) = Some e" by blast
  from ne assms(1,2) f have "pickProtagonist (Some ces) = Some (protagonist_of e)"
    by (simp add: pickProtagonist_def Let_def)
  with d show ?thesis by blast
qed

lemma pick_nothing:
  assumes "filter is_main (keep_valid ces) = []"
    and "filter has_numeric_fav (keep_valid ces) = []"
    and "filter has_name (keep_valid ces) = []"
  shows "pickProtagonist (Some ces) = None"
  using assms find_none [OF assms(3)] by (simp add: pickProtagonist_def Let_def)

text \<open>
  A role passes the test for \<open>MAIN\<close> exactly when it holds the four letters in a
  row, each in either case.
\<close>

lemma toUpperCase_char_MAIN:
  "toUpperCase_char c = CHR ''M'' \<longleftrightarrow> c = CHR ''M'' \<or> c = CHR ''m''"
  "toUpperCase_char c = CHR ''A'' \<longleftrightarrow> c = CHR ''A'' \<or> c = CHR ''a''"
  "toUpperCase_char c = CHR ''I'' \<longleftrightarrow> c = CHR ''I'' \<or> c = CHR ''i''"
  "toUpperCase_char c = CHR ''N'' \<longleftrightarrow> c = CHR ''N'' \<or> c = CHR ''n''"
  by (auto simp: toUpperCase_char_def split: if_splits)

lemma toUpperCase_MAIN_iff:
  "(\<exists>pre post. toUpperCase r = pre @ ''MAIN'' @ post) \<longleftrightarrow>
   (\<exists>pre a b c d post. r = pre @ [a, b, c, d] @ post
      \<and> a \<in> {CHR ''M'', CHR ''m''} \<and> b \<in> {CHR ''A'', CHR ''a''}
      \<and> c \<in> {CHR ''I'', CHR ''i''} \<and> d \<in> {CHR ''N'', CHR ''n''})"
proof
  assume "\<exists>pre post. toUpperCase r = pre @ ''MAIN'' @ post"
  then obtain pre' post' where "map toUpperCase_char r = pre' @ ''MAIN'' @ post'"
    by (auto simp: toUpperCase_def)
  then obtain pre rest where r: "r = pre @ rest"
    and rest: "map toUpperCase_char rest = ''MAIN'' @ post'"
    by (auto simp: map_eq_append_conv)
  from rest obtain a b c d post where "rest = a # b # c # d # post"
    and "toUpperCase_char a = CHR ''M''" and "toUpperCase_char b = CHR ''A''"
    and "toUpperCase_char c = CHR ''I''" and "toUpperCase_char d = CHR ''N''"
    by (auto simp: map_eq_Cons_conv)
  with r have "r = pre @ [a, b, c, d] @ post
      \<and> a \<in> {CHR ''M'', CHR ''m''} \<and> b \<in> {CHR ''A'', CHR ''a''}
      \<and> c \<in> {CHR ''I'', CHR ''i''} \<and> d \<in> {CHR ''N'', CHR ''n''}"
    by (simp add: toUpperCase_char_MAIN)
  then show "\<exists>pre a b c d post. r = pre @ [a, b, c, d] @ post
      \<and> a \<in> {CHR ''M'', CHR ''m''} \<and> b \<in> {CHR ''A'', CHR ''a''}
      \<and> c \<in> {CHR ''I'', CHR ''i''} \<and> d \<in> {CHR ''N'', CHR ''n''}"
    by blast
next
  assume "\<exists>pre a b c d post. r = pre @ [a, b, c, d] @ post
      \<and> a \<in> {CHR ''M'', CHR ''m''} \<and> b \<in> {CHR ''A'', CHR ''a''}
      \<and> c \<in> {CHR ''I'', CHR ''i''} \<and> d \<in> {CHR ''N'', CHR ''n''}"
  then obtain pre a b c d post where r: "r = pre @ [a, b, c, d] @ post"
    and l: "toUpperCase_char a = CHR ''M''" "toUpperCase_char b = CHR ''A''"
      "toUpperCase_char c = CHR ''I''" "toUpperCase_char d = CHR ''N''"
    by (auto simp: toUpperCase_char_MAIN)
  have "toUpperCase r = toUpperCase pre @ ''MAIN'' @ toUpperCase post"
    unfolding r by (simp add: toUpperCase_def l)
  then show "\<exists>pre post. toUpperCase r = pre @ ''MAIN'' @ post" by blast
qed

lemma is_main_letters:
  "is_main e \<longleftrightarrow>
     (\<exists>r pre a b c d post. vrole e = Some r \<and> r = pre @ [a, b, c, d] @ post
        \<and> a \<in> {CHR ''M'', CHR ''m''} \<and> b \<in> {CHR ''A'', CHR ''a''}
        \<and> c \<in> {CHR ''I'', CHR ''i''} \<and> d \<in> {CHR ''N'', CHR ''n''})"
proof (cases "vrole e")
  case None
  then show ?thesis by (simp add: is_main_def)
next
  case (Some r)
  have "is_main e \<longleftrightarrow> r \<noteq> [] \<and> (\<exists>pre post. toUpperCase r = pre @ ''MAIN'' @ post)"
    by (simp add: is_main_def Some str_includes_iff)
  also have "\<dots> \<longleftrightarrow> (\<exists>pre post. toUpperCase r = pre @ ''MAIN'' @ post)"
    by (auto simp: toUpperCase_def)
  finally show ?thesis unfolding toUpperCase_MAIN_iff using Some by simp
qed

text \<open>
  C1. Protagonist selection follows the fallback chain. A role contains \<open>MAIN\<close> when
  the letters m, a, i, n stand in it in a row, each in upper or lower case. With the
  edges that have a node kept, in order: when some role contains \<open>MAIN\<close>, the selected
  edge is the one of them with the highest favourite count, the
  first of these in list order on a tie (a missing count is read as 0, as the
  comparator does; this covers one such edge as well as several); when no role does and
  some favourite count is a number, it is the edge with the highest number, the first
  on a tie; when no count is a number, it is the first edge with a name that is not
  empty; when there is none, the result is \<open>null\<close>, shown as an empty name and image.
  For the favourites 300, 700, 200 without a main role the edge with 700 is selected.
\<close>

theorem pickProtagonist_fallback_chain:
  "(\<forall>e. is_main e \<longleftrightarrow>
        (\<exists>r pre a b c d post. vrole e = Some r \<and> r = pre @ [a, b, c, d] @ post
           \<and> a \<in> {CHR ''M'', CHR ''m''} \<and> b \<in> {CHR ''A'', CHR ''a''}
           \<and> c \<in> {CHR ''I'', CHR ''i''} \<and> d \<in> {CHR ''N'', CHR ''n''}))
   \<and> (\<forall>e. is_main e \<longleftrightarrow>
        (\<exists>r pre post. vrole e = Some r \<and> toUpperCase r = pre @ ''MAIN'' @ post))
   \<and> (filter is_main (keep_valid ces) \<noteq> [] \<longrightarrow>
      (\<exists>e. spec_highest_stable fav_or_0 (filter is_main (keep_valid ces)) e
           \<and> pickProtagonist (Some ces) = Some (protagonist_of e)))
   \<and> (filter is_main (keep_valid ces) = [] \<and> filter has_numeric_fav (keep_valid ces) \<noteq> [] \<longrightarrow>
      (\<exists>e. spec_highest_stable fav_or_0 (filter has_numeric_fav (keep_valid ces)) e
           \<and> favourites (vnode e) = Some (fav_or_0 e)
           \<and> pickProtagonist (Some ces) = Some (protagonist_of e)))
   \<and> (filter is_main (keep_valid ces) = [] \<and> filter has_numeric_fav (keep_valid ces) = []
        \<and> filter has_name (keep_valid ces) \<noteq> [] \<longrightarrow>
      (\<exists>pre e post. keep_valid ces = pre @ e # post \<and> has_name e
           \<and> (\<forall>x\<in>set pre. \<not> has_name x)
           \<and> pickProtagonist (Some ces) = Some (protagonist_of e)))
   \<and> (filter is_main (keep_valid ces) = [] \<and> filter has_numeric_fav (keep_valid ces) = []
        \<and> filter has_name (keep_valid ces) = [] \<longrightarrow>
      pickProtagonist (Some ces) = None
      \<and> shown_protagonist (Some ces) = \<lparr>name = [], image = []\<rparr>)
   \<and> pickProtagonist (Some example_300_700_200) = Some \<lparr>name = ''B'', image = []\<rparr>"
proof -
  have "\<forall>e. is_main e \<longleftrightarrow>
        (\<exists>r pre post. vrole e = Some r \<and> toUpperCase r = pre @ ''MAIN'' @ post)"
    by (auto simp: is_main_def str_includes_iff toUpperCase_def split: option.splits)
  moreover have "pickProtagonist (Some example_300_700_200) = Some \<lparr>name = ''B'', image = []\<rparr>"
    by code_simp
  moreover have "\<forall>e. is_main e \<longleftrightarrow>
        (\<exists>r pre a b c d post. vrole e = Some r \<and> r = pre @ [a, b, c, d] @ post
           \<and> a \<in> {CHR ''M'', CHR ''m''} \<and> b \<in> {CHR ''A'', CHR ''a''}
           \<and> c \<in> {CHR ''I'', CHR ''i''} \<and> d \<in> {CHR ''N'', CHR ''n''})"
    using is_main_letters by blast
  ultimately show ?thesis
    using pick_main [of ces] pick_fav [of ces] pick_named [of ces] pick_nothing [of ces]
    by (simp add: shown_protagonist_def)
qed

theorem pickProtagonist_fallback_chain_witness:
  "is_main \<lparr>vrole = Some ''Main'',
             vnode = \<lparr>name_full = None, image_medium = None, favourites = None\<rparr>\<rparr>
   \<and> filter is_main (keep_valid example_mixed_case) \<noteq> []
   \<and> (\<exists>e. spec_highest_stable fav_or_0 (filter is_main (keep_valid example_mixed_case)) e
          \<and> pickProtagonist (Some example_mixed_case) = Some (protagonist_of e))
   \<and> pickProtagonist (Some example_mixed_case) = Some \<lparr>name = ''B'', image = []\<rparr>
   \<and> filter is_main (keep_valid example_two_main) \<noteq> []
   \<and> (\<exists>e. spec_highest_stable fav_or_0 (filter is_main (keep_valid example_two_main)) e
          \<and> pickProtagonist (Some example_two_main) = Some (protagonist_of e))
   \<and> pickProtagonist (Some example_two_main) = Some \<lparr>name = ''B'', image = []\<rparr>
   \<and> filter is_main (keep_valid example_300_700_200) = []
   \<and> filter has_numeric_fav (keep_valid example_300_700_200) \<noteq> []
   \<and> (\<exists>e. spec_highest_stable fav_or_0
            (filter has_numeric_fav (keep_valid example_300_700_200)) e
          \<and> pickProtagonist (Some example_300_700_200) = Some (protagonist_of e))
   \<and> filter has_name (keep_valid example_no_favourites) \<noteq> []
   \<and> filter has_numeric_fav (keep_valid example_no_favourites) = []
   \<and> filter is_main (keep_valid example_no_favourites) = []
   \<and> pickProtagonist (Some example_no_favourites) = Some \<lparr>name = ''Alice'', image = []\<rparr>
   \<and> filter has_name (keep_valid example_no_candidate) = []
   \<and> filter has_numeric_fav (keep_valid example_no_candidate) = []
   \<and> filter is_main (keep_valid example_no_candidate) = []
   \<and> pickProtagonist (Some example_no_candidate) = None"
proof -
  note chain = pickProtagonist_fallback_chain
  have "''Main'' = [] @ [CHR ''M'', CHR ''a'', CHR ''i'', CHR ''n''] @ []" by simp
  with chain [of "[]"] have x0: "is_main \<lparr>vrole = Some ''Main'',
             vnode = \<lparr>name_full = None, image_medium = None, favourites = None\<rparr>\<rparr>"
    by (metis insertI1 insertI2 valid_edge.select_convs(1))
  have x1: "filter is_main (keep_valid example_mixed_case) \<noteq> []" by code_simp
  have x2: "\<exists>e. spec_highest_stable fav_or_0 (filter is_main (keep_valid example_mixed_case)) e
          \<and> pickProtagonist (Some example_mixed_case) = Some (protagonist_of e)"
    using chain [of example_mixed_case] x1 by blast
  have x3: "pickProtagonist (Some example_mixed_case) = Some \<lparr>name = ''B'', image = []\<rparr>"
    by code_simp
  have m1: "filter is_main (keep_valid example_two_main) \<noteq> []" by code_simp
  have m2: "\<exists>e. spec_highest_stable fav_or_0 (filter is_main (keep_valid example_two_main)) e
          \<and> pickProtagonist (Some example_two_main) = Some (protagonist_of e)"
    using chain [of example_two_main] m1 by blast
  have m3: "pickProtagonist (Some example_two_main) = Some \<lparr>name = ''B'', image = []\<rparr>"
    by code_simp
  have f1: "filter is_main (keep_valid example_300_700_200) = []" by code_simp
  have f2: "filter has_numeric_fav (keep_valid example_300_700_200) \<noteq> []" by code_simp
  have f3: "\<exists>e. spec_highest_stable fav_or_0
            (filter has_numeric_fav (keep_valid example_300_700_200)) e
          \<and> pickProtagonist (Some example_300_700_200) = Some (protagonist_of e)"
    using chain [of example_300_700_200] f1 f2 by blast
  have n1: "filter has_name (keep_valid example_no_favourites) \<noteq> []" by code_simp
  have n2: "filter has_numeric_fav (keep_valid example_no_favourites) = []" by code_simp
  have n3: "filter is_main (keep_valid example_no_favourites) = []" by code_simp
  have n4: "\<exists>pre e post. keep_valid example_no_favourites = pre @ e # post \<and> has_name e
           \<and> (\<forall>x\<in>set pre. \<not> has_name x)
           \<and> pickProtagonist (Some example_no_favourites) = Some (protagonist_of e)"
    using chain [of example_no_favourites] n1 n2 n3 by blast
  have kv: "keep_valid example_no_favourites =
      [\<lparr>vrole = Some ''SUPPORTING'',
         vnode = \<lparr>name_full = Some [], image_medium = None, favourites = None\<rparr>\<rparr>,
       \<lparr>vrole = Some ''SUPPORTING'',
         vnode = \<lparr>name_full = Some ''Alice'', image_medium = None, favourites = None\<rparr>\<rparr>]"
    by (simp add: example_no_favourites_def example_edge_def)
  from n4 obtain pre e post where
    d: "keep_valid example_no_favourites = pre @ e # post" "has_name e"
       "\<forall>x\<in>set pre. \<not> has_name x"
       "pickProtagonist (Some example_no_favourites) = Some (protagonist_of e)" by blast
  from d(1) have "e \<in> set (keep_valid example_no_favourites)" by simp
  with d(2) have "e = \<lparr>vrole = Some ''SUPPORTING'',
         vnode = \<lparr>name_full = Some ''Alice'', image_medium = None, favourites = None\<rparr>\<rparr>"
    unfolding kv by (auto simp: has_name_def)
  with d(4) have n5:
    "pickProtagonist (Some example_no_favourites) = Some \<lparr>name = ''Alice'', image = []\<rparr>"
    by (simp add: protagonist_of_def or_empty_def)
  have z1: "filter has_name (keep_valid example_no_candidate) = []" by code_simp
  have z2: "filter has_numeric_fav (keep_valid example_no_candidate) = []" by code_simp
  have z3: "filter is_main (keep_valid example_no_candidate) = []" by code_simp
  have z4: "pickProtagonist (Some example_no_candidate) = None"
    using chain [of example_no_candidate] z1 z2 z3 by blast
  show ?thesis
    using x0 x1 x2 x3 m1 m2 m3 f1 f2 f3 n1 n2 n3 n5 z1 z2 z3 z4 by blast
qed

section \<open>Main-creator selection\<close>

text \<open>The model of \<open>sort\<close> orders by descending key and keeps equal keys in order.\<close>

lemma array_sort_sorted:
  "sorted_wrt (\<lambda>a b. key b \<le> key a) (array_sort (\<lambda>a b. key b - key a) xs)"
proof -
  let ?cmp = "\<lambda>a b. key b - key a"
  have set_ins: "set (sort_insert ?cmp x ys) = insert x (set ys)" for x :: 'a and ys
    by (induction ys) auto
  have ins: "sorted_wrt (\<lambda>a b. key b \<le> key a) ys \<Longrightarrow>
      sorted_wrt (\<lambda>a b. key b \<le> key a) (sort_insert ?cmp x ys)" for x ys
    by (induction ys) (auto simp: set_ins)
  show ?thesis by (induction xs) (auto simp: array_sort_def ins)
qed

lemma array_sort_stable:
  "filter (\<lambda>x. key x = k) (array_sort (\<lambda>a b. key b - key a) xs) = filter (\<lambda>x. key x = k) xs"
proof -
  let ?cmp = "\<lambda>a b. key b - key a"
  have ins: "sorted_wrt (\<lambda>a b. key b \<le> key a) ys \<Longrightarrow>
      filter (\<lambda>x. key x = k) (sort_insert ?cmp x ys) = filter (\<lambda>x. key x = k) (x # ys)" for x ys
  proof (induction ys)
    case Nil
    then show ?case by simp
  next
    case (Cons y ys)
    show ?case
    proof (cases "key y \<le> key x")
      case True
      then show ?thesis by simp
    next
      case False
      from Cons have "filter (\<lambda>x. key x = k) (sort_insert ?cmp x ys) = filter (\<lambda>x. key x = k) (x # ys)"
        by simp
      with False show ?thesis by auto
    qed
  qed
  show ?thesis
    by (induction xs) (simp_all add: array_sort_Cons ins array_sort_sorted, simp add: array_sort_def)
qed

lemma has_creator_role_iff:
  "has_creator_role e \<longleftrightarrow>
     (\<exists>r w pre post. vrole e = Some r
        \<and> w \<in> set [''story'', ''original'', ''creator'', ''author'']
        \<and> toUpperCase r = pre @ toUpperCase w @ post)"
proof (cases "vrole e")
  case None
  then show ?thesis by (simp add: has_creator_role_def)
next
  case (Some r)
  have up: "toUpperCase ''story'' = ''STORY''" "toUpperCase ''original'' = ''ORIGINAL''"
    "toUpperCase ''creator'' = ''CREATOR''" "toUpperCase ''author'' = ''AUTHOR''"
    by code_simp+
  let ?occurs = "\<lambda>w. \<exists>pre post. toUpperCase r = pre @ w @ post"
  have four: "(\<exists>w. w \<in> set [a, b, c, d] \<and> P w) \<longleftrightarrow> P a \<or> P b \<or> P c \<or> P d"
    for P :: "string \<Rightarrow> bool" and a b c d
    by auto
  have test: "staff_role_regex_test r \<longleftrightarrow>
      ?occurs ''STORY'' \<or> ?occurs ''ORIGINAL'' \<or> ?occurs ''CREATOR'' \<or> ?occurs ''AUTHOR''"
    by (simp only: staff_role_regex_test_def Let_def str_includes_iff)
  have ne: "r \<noteq> []" if "?occurs w" "w \<noteq> []" for w
    using that by (auto simp: toUpperCase_def)
  have "has_creator_role e \<longleftrightarrow>
      ?occurs ''STORY'' \<or> ?occurs ''ORIGINAL'' \<or> ?occurs ''CREATOR'' \<or> ?occurs ''AUTHOR''"
    unfolding has_creator_role_def Some option.case test
    using ne [of "''STORY''"] ne [of "''ORIGINAL''"] ne [of "''CREATOR''"] ne [of "''AUTHOR''"]
    by blast
  also have "\<dots> \<longleftrightarrow> ?occurs (toUpperCase ''story'') \<or> ?occurs (toUpperCase ''original'')
        \<or> ?occurs (toUpperCase ''creator'') \<or> ?occurs (toUpperCase ''author'')"
    by (simp only: up)
  also have "\<dots> \<longleftrightarrow> (\<exists>w. w \<in> set [''story'', ''original'', ''creator'', ''author'']
        \<and> ?occurs (toUpperCase w))"
    using four [where P = "\<lambda>w. ?occurs (toUpperCase w)"] by (rule sym)
  finally show ?thesis by (metis (no_types, lifting) Some option.inject)
qed

text \<open>
  C7. Main-creator selection. With the staff edges that have a node kept, in order, the
  considered set is the edges whose role contains one of the words \<open>story\<close>,
  \<open>original\<close>, \<open>creator\<close>, \<open>author\<close> (letters compared without regard to case), or all
  kept edges when no role does. The selected edge is the one of the considered set with
  the highest favourite count, a missing count read as 0, the first of these in list
  order on a tie, and the result holds the name of its node and nothing else. With no
  kept edge the result is \<open>null\<close>.
\<close>

theorem pickMainStaff_selection:
  "(\<forall>e. has_creator_role e \<longleftrightarrow>
        (\<exists>r w pre post. vrole e = Some r
           \<and> w \<in> set [''story'', ''original'', ''creator'', ''author'']
           \<and> toUpperCase r = pre @ toUpperCase w @ post))
   \<and> (keep_valid ses \<noteq> [] \<longrightarrow>
        (\<exists>e. spec_highest_stable fav_or_0
               (if filter has_creator_role (keep_valid ses) = [] then keep_valid ses
                else filter has_creator_role (keep_valid ses)) e
           \<and> pickMainStaff (Some ses) = Some \<lparr>staff_name = or_empty (name_full (vnode e))\<rparr>))
   \<and> (keep_valid ses = [] \<longrightarrow> pickMainStaff (Some ses) = None)"
proof -
  let ?c = "if filter has_creator_role (keep_valid ses) = [] then keep_valid ses
            else filter has_creator_role (keep_valid ses)"
  have "\<exists>e. spec_highest_stable fav_or_0 ?c e
           \<and> pickMainStaff (Some ses) = Some \<lparr>staff_name = or_empty (name_full (vnode e))\<rparr>"
    if ne: "keep_valid ses \<noteq> []"
  proof -
    from ne have "?c \<noteq> []" by simp
    from array_sort_desc_head [OF this, of fav_or_0] obtain e rest where
      srt: "array_sort by_favourites_desc ?c = e # rest" and hs: "spec_highest_stable fav_or_0 ?c e"
      unfolding by_favourites_desc_eq by blast
    from ne srt have "pickMainStaff (Some ses) = Some \<lparr>staff_name = or_empty (name_full (vnode e))\<rparr>"
      by (simp add: pickMainStaff_def Let_def split: if_splits)
    with hs show ?thesis by blast
  qed
  moreover have "keep_valid ses = [] \<longrightarrow> pickMainStaff (Some ses) = None"
    by (simp add: pickMainStaff_def)
  ultimately show ?thesis using has_creator_role_iff by blast
qed

theorem pickMainStaff_selection_witness:
  "keep_valid example_staff \<noteq> []
   \<and> (\<exists>e. spec_highest_stable fav_or_0
               (if filter has_creator_role (keep_valid example_staff) = []
                then keep_valid example_staff
                else filter has_creator_role (keep_valid example_staff)) e
           \<and> pickMainStaff (Some example_staff)
             = Some \<lparr>staff_name = or_empty (name_full (vnode e))\<rparr>)
   \<and> pickMainStaff (Some example_staff) = Some \<lparr>staff_name = ''C''\<rparr>
   \<and> keep_valid example_staff_no_role \<noteq> []
   \<and> filter has_creator_role (keep_valid example_staff_no_role) = []
   \<and> (\<exists>e. spec_highest_stable fav_or_0 (keep_valid example_staff_no_role) e
           \<and> pickMainStaff (Some example_staff_no_role)
             = Some \<lparr>staff_name = or_empty (name_full (vnode e))\<rparr>)
   \<and> pickMainStaff (Some example_staff_no_role) = Some \<lparr>staff_name = ''B''\<rparr>
   \<and> keep_valid example_staff_invalid = []
   \<and> pickMainStaff (Some example_staff_invalid) = None"
proof -
  note sel = pickMainStaff_selection
  have a1: "keep_valid example_staff \<noteq> []" by code_simp
  have a2: "\<exists>e. spec_highest_stable fav_or_0
               (if filter has_creator_role (keep_valid example_staff) = []
                then keep_valid example_staff
                else filter has_creator_role (keep_valid example_staff)) e
           \<and> pickMainStaff (Some example_staff)
             = Some \<lparr>staff_name = or_empty (name_full (vnode e))\<rparr>"
    using sel [of example_staff] a1 by blast
  have a3: "pickMainStaff (Some example_staff) = Some \<lparr>staff_name = ''C''\<rparr>" by code_simp
  have b1: "keep_valid example_staff_no_role \<noteq> []" by code_simp
  have b2: "filter has_creator_role (keep_valid example_staff_no_role) = []" by code_simp
  have b3: "\<exists>e. spec_highest_stable fav_or_0 (keep_valid example_staff_no_role) e
           \<and> pickMainStaff (Some example_staff_no_role)
             = Some \<lparr>staff_name = or_empty (name_full (vnode e))\<rparr>"
    using sel [of example_staff_no_role] b1 b2 by simp
  have b4: "pickMainStaff (Some example_staff_no_role) = Some \<lparr>staff_name = ''B''\<rparr>"
    by code_simp
  have c1: "keep_valid example_staff_invalid = []" by code_simp
  have c2: "pickMainStaff (Some example_staff_invalid) = None"
    using sel [of example_staff_invalid] c1 by blast
  show ?thesis using a1 a2 a3 b1 b2 b3 b4 c1 c2 by blast
qed

section \<open>The cache of the free-text search\<close>

lemma map_has_get: "map_has m k \<longleftrightarrow> map_get m k \<noteq> None"
  by (simp add: map_has_def map_get_def map_of_eq_None_iff)

lemma keys_map_set: "set (map fst (map_set m k v)) = insert k (set (map fst m))"
proof (induction m)
  case Nil
  then show ?case by simp
next
  case (Cons p m)
  obtain k' v' where p: "p = (k', v')" by (cases p)
  show ?case
  proof (cases "k' = k")
    case True
    with p show ?thesis by simp
  next
    case False
    with p Cons show ?thesis by (simp add: insert_commute)
  qed
qed

lemma distinct_map_set:
  "distinct (map fst m) \<Longrightarrow> distinct (map fst (map_set m k v))"
proof (induction m)
  case Nil
  then show ?case by simp
next
  case (Cons p m)
  obtain k' v' where p: "p = (k', v')" by (cases p)
  show ?case
  proof (cases "k' = k")
    case True
    with Cons.prems p show ?thesis by simp
  next
    case False
    from Cons have "distinct (map fst (map_set m k v))" by simp
    moreover from Cons.prems p False have "k' \<notin> set (map fst (map_set m k v))"
      unfolding keys_map_set by simp
    ultimately show ?thesis using p False by simp
  qed
qed

lemma map_get_set_same: "map_get (map_set m k v) k = Some v"
  by (induction m) (auto simp: map_get_def)

lemma keys_map_set_new:
  "k \<notin> set (map fst m) \<Longrightarrow> map (fst) (map_set m k v) = map fst m @ [k]"
  by (induction m) auto

lemma map_set_new: "k \<notin> set (map fst m) \<Longrightarrow> map_set m k v = m @ [(k, v)]"
  by (induction m) auto

lemma map_get_delete_other: "k \<noteq> k' \<Longrightarrow> map_get (map_delete m k') k = map_get m k"
  by (induction m) (auto simp: map_get_def map_delete_def)

lemma map_delete_first:
  "distinct (map fst ((k, v) # m)) \<Longrightarrow> map_delete ((k, v) # m) k = m"
  by (auto simp: map_delete_def filter_id_conv)

text \<open>What storing a page under a key that is not in the cache does to the cache.\<close>

lemma store_get:
  assumes "\<not> map_has c k"
  shows "map_get (let c1 = map_set c k v
                  in if map_size c1 > 50 then
                       (case c1 of (firstKey, _) # _ \<Rightarrow> map_delete c1 firstKey | [] \<Rightarrow> c1)
                     else c1) k = Some v"
proof (cases c)
  case Nil
  then show ?thesis by (simp add: map_size_def map_get_def)
next
  case (Cons p c')
  obtain k' v' where p: "p = (k', v')" by (cases p)
  from assms Cons p have ne: "k' \<noteq> k" by (auto simp: map_has_def)
  then have eq: "map_set c k v = (k', v') # map_set c' k v" using Cons p by simp
  have del: "map_get (map_delete (map_set c k v) k') k = Some v"
    using ne by (simp add: map_get_delete_other map_get_set_same)
  show ?thesis
  proof (cases "map_size (map_set c k v) > 50")
    case True
    with del show ?thesis by (simp add: Let_def eq)
  next
    case False
    then show ?thesis by (simp add: Let_def map_get_set_same)
  qed
qed

lemma signal_fresh:
  "\<not> signal_aborted (s\<lparr>controllers := cs @ [False], abortController := a, fetch_calls := n\<rparr>)
       (length cs)"
  by (simp add: signal_aborted_def)

lemma start_hit:
  assumes "map_get (cache s) (cacheKey_of q pg per) = Some cached"
  shows "fst (fetchAnilist_start q pg per s) = Inl cached"
    and "cache (snd (fetchAnilist_start q pg per s)) = cache s"
    and "fetch_calls (snd (fetchAnilist_start q pg per s)) = fetch_calls s"
    and "controllers (snd (fetchAnilist_start q pg per s)) = controllers s"
    and "errorEl_text (snd (fetchAnilist_start q pg per s)) = []"
  using assms by (simp_all add: fetchAnilist_start_def Let_def clearError_def map_has_get)

lemma fetchAnilist_hit:
  assumes "map_get (cache s) (cacheKey_of q pg per) = Some cached"
  shows "fst (fetchAnilist q pg per r s) = Some cached"
    and "cache (snd (fetchAnilist q pg per r s)) = cache s"
    and "fetch_calls (snd (fetchAnilist q pg per r s)) = fetch_calls s"
  using start_hit [OF assms]
  by (simp_all add: fetchAnilist_def split: prod.split sum.split) auto

text \<open>On a miss the request is made with a new controller, which is not aborted.\<close>

lemma fetchAnilist_miss:
  assumes "\<not> map_has (cache s) (cacheKey_of q pg per)"
  shows "\<exists>s1. fetchAnilist q pg per r s
            = fetchAnilist_settle (cacheKey_of q pg per) (length (controllers s1)) r
                (s1\<lparr>controllers := controllers s1 @ [False],
                    abortController := Some (length (controllers s1)),
                    fetch_calls := Suc (fetch_calls s)\<rparr>)
          \<and> cache s1 = cache s \<and> fetch_calls s1 = fetch_calls s
          \<and> lastPageInfo s1 = lastPageInfo s"
proof -
  let ?s0 = "(clearError s)\<lparr>statusEl := ''Caricamento'' @ ellipsis, searchBtn_disabled := True\<rparr>"
  let ?s1 = "case abortController ?s0 of
               None \<Rightarrow> ?s0
             | Some c \<Rightarrow> ?s0\<lparr>controllers := (controllers ?s0)[c := True]\<rparr>"
  have c: "cache ?s1 = cache s" "fetch_calls ?s1 = fetch_calls s" "lastPageInfo ?s1 = lastPageInfo s"
    by (simp_all add: clearError_def split: option.split)
  have "fetchAnilist q pg per r s
        = fetchAnilist_settle (cacheKey_of q pg per) (length (controllers ?s1)) r
            (?s1\<lparr>controllers := controllers ?s1 @ [False],
                 abortController := Some (length (controllers ?s1)),
                 fetch_calls := Suc (fetch_calls s)\<rparr>)"
  proof (cases "abortController s")
    case None
    with assms show ?thesis
      by (simp add: fetchAnilist_def fetchAnilist_start_def Let_def clearError_def)
  next
    case (Some c)
    with assms show ?thesis
      by (simp add: fetchAnilist_def fetchAnilist_start_def Let_def clearError_def)
  qed
  with c show ?thesis by blast
qed

lemma settle_fresh_data:
  fixes s1 :: "'m widget" and n :: nat
  defines "s2 \<equiv> s1\<lparr>controllers := controllers s1 @ [False],
                    abortController := Some (length (controllers s1)),
                    fetch_calls := Suc n\<rparr>"
  shows "fst (fetchAnilist_settle k (length (controllers s1)) (Json (Data pd)) s2) = Some pd"
    and "cache (snd (fetchAnilist_settle k (length (controllers s1)) (Json (Data pd)) s2))
         = (let c1 = map_set (cache s1) k pd
            in if map_size c1 > 50 then
                 (case c1 of (firstKey, _) # _ \<Rightarrow> map_delete c1 firstKey | [] \<Rightarrow> c1)
               else c1)"
    and "fetch_calls (snd (fetchAnilist_settle k (length (controllers s1)) (Json (Data pd)) s2))
         = Suc n"
  unfolding s2_def
  by (simp_all add: fetchAnilist_settle_def settled_as_def signal_fresh Let_def
      split: list.split)

lemma settle_fresh_failure:
  fixes s1 :: "'m widget" and n :: nat
  defines "s2 \<equiv> s1\<lparr>controllers := controllers s1 @ [False],
                    abortController := Some (length (controllers s1)),
                    fetch_calls := Suc n\<rparr>"
  assumes "\<forall>pd. r \<noteq> Json (Data pd)"
  shows "fst (fetchAnilist_settle k (length (controllers s1)) r s2) = None"
    and "cache (snd (fetchAnilist_settle k (length (controllers s1)) r s2)) = cache s1"
    and "fetch_calls (snd (fetchAnilist_settle k (length (controllers s1)) r s2)) = Suc n"
    and "lastPageInfo (snd (fetchAnilist_settle k (length (controllers s1)) r s2))
         = lastPageInfo s1"
  using assms(2) unfolding s2_def
  by (simp_all add: fetchAnilist_settle_def settled_as_def signal_fresh fetchAnilist_catch_def
      showError_def split: response.split payload.split)


lemma first_page_cached:
  assumes "fst (fetchAnilist q pg per r1 s) = Some page1"
  shows "map_get (cache (snd (fetchAnilist q pg per r1 s))) (cacheKey_of q pg per) = Some page1"
proof (cases "map_has (cache s) (cacheKey_of q pg per)")
  case True
  then obtain cached where c: "map_get (cache s) (cacheKey_of q pg per) = Some cached"
    by (auto simp: map_has_get)
  from fetchAnilist_hit [OF c, of r1] assms c show ?thesis by simp
next
  case False
  from fetchAnilist_miss [OF False, of r1] obtain s1 where
    eq: "fetchAnilist q pg per r1 s
          = fetchAnilist_settle (cacheKey_of q pg per) (length (controllers s1)) r1
              (s1\<lparr>controllers := controllers s1 @ [False],
                  abortController := Some (length (controllers s1)),
                  fetch_calls := Suc (fetch_calls s)\<rparr>)"
    and c: "cache s1 = cache s" by blast
  show ?thesis
  proof (cases "\<exists>pd. r1 = Json (Data pd)")
    case True
    then obtain pd where r1: "r1 = Json (Data pd)" by blast
    note eq' = eq [unfolded r1]
    from assms have pd: "pd = page1" unfolding r1 eq' by (simp add: settle_fresh_data(1))
    have nc: "\<not> map_has (cache s1) (cacheKey_of q pg per)" using False c by simp
    have "map_get (cache (snd (fetchAnilist q pg per (Json (Data pd)) s)))
            (cacheKey_of q pg per) = Some pd"
      unfolding eq' settle_fresh_data(2) by (rule store_get [OF nc])
    then show ?thesis unfolding r1 pd .
  next
    case False
    then have "\<forall>pd. r1 \<noteq> Json (Data pd)" by blast
    from settle_fresh_failure(1) [OF this] assms show ?thesis unfolding eq by simp
  qed
qed

lemma miss_calls_once:
  assumes "\<not> map_has (cache s) (cacheKey_of q pg per)"
  shows "fetch_calls (snd (fetchAnilist q pg per r s)) = Suc (fetch_calls s)"
proof -
  from fetchAnilist_miss [OF assms, of r] obtain s1 where
    eq: "fetchAnilist q pg per r s
          = fetchAnilist_settle (cacheKey_of q pg per) (length (controllers s1)) r
              (s1\<lparr>controllers := controllers s1 @ [False],
                  abortController := Some (length (controllers s1)),
                  fetch_calls := Suc (fetch_calls s)\<rparr>)" by blast
  show ?thesis
  proof (cases "\<exists>pd. r = Json (Data pd)")
    case True
    then show ?thesis unfolding eq by (auto simp: settle_fresh_data(3))
  next
    case False
    then have "\<forall>pd. r \<noteq> Json (Data pd)" by blast
    from settle_fresh_failure(3) [OF this] show ?thesis unfolding eq by simp
  qed
qed

text \<open>
  C3. Resolving the same key twice. When a call of \<open>fetchAnilist\<close> has returned a page,
  that page is in the cache under the key of the call, and a second call with the same
  search text, page and page size, whatever its request would have brought, calls
  \<open>fetch\<close> no further time, returns that page and leaves the cache as it is. When the
  key was not cached before the first call, the two calls together call \<open>fetch\<close> once.
\<close>

theorem resolve_same_key_twice:
  "fst (fetchAnilist q pg per r1 s) = Some page1 \<longrightarrow>
     map_get (cache (snd (fetchAnilist q pg per r1 s))) (cacheKey_of q pg per) = Some page1
     \<and> fst (fetchAnilist q pg per r2 (snd (fetchAnilist q pg per r1 s))) = Some page1
     \<and> fetch_calls (snd (fetchAnilist q pg per r2 (snd (fetchAnilist q pg per r1 s))))
       = fetch_calls (snd (fetchAnilist q pg per r1 s))
     \<and> cache (snd (fetchAnilist q pg per r2 (snd (fetchAnilist q pg per r1 s))))
       = cache (snd (fetchAnilist q pg per r1 s))
     \<and> (\<not> map_has (cache s) (cacheKey_of q pg per) \<longrightarrow>
          fetch_calls (snd (fetchAnilist q pg per r2 (snd (fetchAnilist q pg per r1 s))))
          = Suc (fetch_calls s))"
proof
  assume a: "fst (fetchAnilist q pg per r1 s) = Some page1"
  let ?s1 = "snd (fetchAnilist q pg per r1 s)"
  have c: "map_get (cache ?s1) (cacheKey_of q pg per) = Some page1"
    by (rule first_page_cached [OF a])
  note hit = fetchAnilist_hit [OF c, of r2]
  have "\<not> map_has (cache s) (cacheKey_of q pg per) \<longrightarrow>
          fetch_calls (snd (fetchAnilist q pg per r2 ?s1)) = Suc (fetch_calls s)"
    using hit(3) miss_calls_once [of s q pg per r1] by simp
  with c hit show "map_get (cache ?s1) (cacheKey_of q pg per) = Some page1
     \<and> fst (fetchAnilist q pg per r2 ?s1) = Some page1
     \<and> fetch_calls (snd (fetchAnilist q pg per r2 ?s1)) = fetch_calls ?s1
     \<and> cache (snd (fetchAnilist q pg per r2 ?s1)) = cache ?s1
     \<and> (\<not> map_has (cache s) (cacheKey_of q pg per) \<longrightarrow>
          fetch_calls (snd (fetchAnilist q pg per r2 ?s1)) = Suc (fetch_calls s))"
    by simp
qed

theorem resolve_same_key_twice_witness:
  "fst (fetchAnilist ''q'' 1 20 (Json (Data (example_page 1))) (initial_widget ''q''))
     = Some (example_page 1)
   \<and> \<not> map_has (cache (initial_widget ''q'' :: nat widget)) (cacheKey_of ''q'' 1 20)
   \<and> fst (fetchAnilist ''q'' 1 20 (Json (Data (example_page 2)))
        (snd (fetchAnilist ''q'' 1 20 (Json (Data (example_page 1))) (initial_widget ''q''))))
     = Some (example_page 1)
   \<and> fetch_calls (snd (fetchAnilist ''q'' 1 20 (Json (Data (example_page 2)))
        (snd (fetchAnilist ''q'' 1 20 (Json (Data (example_page 1))) (initial_widget ''q'')))))
     = Suc (fetch_calls (initial_widget ''q'' :: nat widget))"
proof -
  have a: "fst (fetchAnilist ''q'' 1 20 (Json (Data (example_page 1))) (initial_widget ''q''))
     = Some (example_page 1)"
    by code_simp
  have b: "\<not> map_has (cache (initial_widget ''q'' :: nat widget)) (cacheKey_of ''q'' 1 20)"
    by (simp add: initial_widget_def map_has_def)
  from resolve_same_key_twice [of "''q''" 1 20 "Json (Data (example_page 1))"
      "initial_widget ''q''" "example_page 1" "Json (Data (example_page 2))"] a b
  show ?thesis by blast
qed

text \<open>The cache after a call depends on the cache before it, the key and the response.\<close>

lemma cache_after_fetch:
  "cache (snd (fetchAnilist q pg per r s)) =
     (if map_has (cache s) (cacheKey_of q pg per) then cache s
      else case r of
             Json (Data pd) \<Rightarrow>
               (let c1 = map_set (cache s) (cacheKey_of q pg per) pd
                in if map_size c1 > 50 then
                     (case c1 of (firstKey, _) # _ \<Rightarrow> map_delete c1 firstKey | [] \<Rightarrow> c1)
                   else c1)
           | _ \<Rightarrow> cache s)"
proof (cases "map_has (cache s) (cacheKey_of q pg per)")
  case True
  then obtain cached where c: "map_get (cache s) (cacheKey_of q pg per) = Some cached"
    by (auto simp: map_has_get)
  from fetchAnilist_hit(2) [OF c, of r] True show ?thesis by simp
next
  case False
  from fetchAnilist_miss [OF False, of r] obtain s1 where
    eq: "fetchAnilist q pg per r s
          = fetchAnilist_settle (cacheKey_of q pg per) (length (controllers s1)) r
              (s1\<lparr>controllers := controllers s1 @ [False],
                  abortController := Some (length (controllers s1)),
                  fetch_calls := Suc (fetch_calls s)\<rparr>)"
    and c: "cache s1 = cache s" by blast
  show ?thesis
  proof (cases "\<exists>pd. r = Json (Data pd)")
    case True
    then obtain pd where r: "r = Json (Data pd)" by blast
    note eq' = eq [unfolded r]
    show ?thesis using False unfolding r eq' settle_fresh_data(2) c by simp
  next
    case no: False
    then have "\<forall>pd. r \<noteq> Json (Data pd)" by blast
    from settle_fresh_failure(2) [OF this] have "cache (snd (fetchAnilist q pg per r s)) = cache s"
      unfolding eq by (simp add: c)
    with False no show ?thesis by (auto split: response.split payload.split)
  qed
qed

lemma cache_after_store:
  assumes "distinct (map fst c)" and "k \<notin> set (map fst c)" and "length c \<le> 50"
  shows "(let c1 = map_set c k v
          in if map_size c1 > 50 then
               (case c1 of (firstKey, _) # _ \<Rightarrow> map_delete c1 firstKey | [] \<Rightarrow> c1)
             else c1)
         = (if length c = 50 then tl c @ [(k, v)] else c @ [(k, v)])"
proof (cases "length c = 50")
  case True
  then obtain p c' where c: "c = p # c'" by (cases c) auto
  obtain k' v' where p: "p = (k', v')" by (cases p)
  have new: "map_set c k v = (k', v') # c' @ [(k, v)]"
    using map_set_new [OF assms(2), of v] c p by simp
  have "distinct (map fst ((k', v') # c' @ [(k, v)]))" using assms c p by auto
  then have "map_delete ((k', v') # c' @ [(k, v)]) k' = c' @ [(k, v)]"
    by (rule map_delete_first)
  with True c p show ?thesis unfolding new by (simp add: map_size_def)
next
  case False
  with assms(3) show ?thesis unfolding map_set_new [OF assms(2)] by (simp add: map_size_def)
qed

lemma request_key_simp [simp]: "request_key (q, pg, per, r) = cacheKey_of q pg per"
  by (simp add: request_key_def)

lemma resolve_all_append: "resolve_all (rs1 @ rs2) s = resolve_all rs2 (resolve_all rs1 s)"
  by (induction rs1 s rule: resolve_all.induct) auto

lemma resolve_all_cache_cong:
  "cache s = cache s' \<Longrightarrow> cache (resolve_all rs s) = cache (resolve_all rs s')"
proof (induction rs s arbitrary: s' rule: resolve_all.induct)
  case (1 s)
  then show ?case by simp
next
  case (2 q pg per r rs s)
  have "cache (snd (fetchAnilist q pg per r s)) = cache (snd (fetchAnilist q pg per r s'))"
    by (simp only: cache_after_fetch "2.prems")
  from "2.IH" [OF this] show ?case by simp
qed

lemma resolve_all_fifo:
  assumes "distinct (map fst (cache s) @ map request_key rs)"
    and "length (cache s) \<le> 50"
    and "\<forall>rq\<in>set rs. brings_page rq"
  shows "map fst (cache (resolve_all rs s))
         = drop (length (cache s) + length rs - 50) (map fst (cache s) @ map request_key rs)
         \<and> length (cache (resolve_all rs s)) \<le> 50"
  using assms
proof (induction rs s rule: resolve_all.induct)
  case (1 s)
  then show ?case by simp
next
  case (2 q pg per r rs s)
  let ?k = "cacheKey_of q pg per"
  let ?s' = "snd (fetchAnilist q pg per r s)"
  from "2.prems"(3) obtain pd where r: "r = Json (Data pd)"
    by (auto simp: brings_page_def split: response.splits payload.splits)
  from "2.prems"(1) have dist: "distinct (map fst (cache s))"
    and new: "?k \<notin> set (map fst (cache s))"
    by auto
  have c': "cache ?s' = (if length (cache s) = 50 then tl (cache s) @ [(?k, pd)]
                         else cache s @ [(?k, pd)])"
    unfolding cache_after_fetch r using new cache_after_store [OF dist new "2.prems"(2)]
    by (simp add: map_has_def)
  show ?case
  proof (cases "length (cache s) = 50")
    case True
    then obtain p c0 where c: "cache s = p # c0" by (cases "cache s") auto
    with c' True have cs: "cache ?s' = c0 @ [(?k, pd)]" by simp
    have d: "distinct (map fst (cache ?s') @ map request_key rs)"
      using "2.prems"(1) c cs by auto
    have l: "length (cache ?s') \<le> 50" using cs c True by simp
    from "2.IH" [OF d l] "2.prems"(3)
    have ih: "map fst (cache (resolve_all rs ?s'))
        = drop (length (cache ?s') + length rs - 50) (map fst (cache ?s') @ map request_key rs)"
      and le: "length (cache (resolve_all rs ?s')) \<le> 50" by auto
    have "length (cache ?s') = 50" using cs c True by simp
    with ih cs c True le show ?thesis by simp
  next
    case False
    with c' have cs: "cache ?s' = cache s @ [(?k, pd)]" by simp
    have d: "distinct (map fst (cache ?s') @ map request_key rs)"
      using "2.prems"(1) cs by auto
    have l: "length (cache ?s') \<le> 50" using cs False "2.prems"(2) by simp
    from "2.IH" [OF d l] "2.prems"(3)
    have ih: "map fst (cache (resolve_all rs ?s'))
        = drop (length (cache ?s') + length rs - 50) (map fst (cache ?s') @ map request_key rs)"
      and le: "length (cache (resolve_all rs ?s')) \<le> 50" by auto
    with cs show ?thesis by simp
  qed
qed

text \<open>
  C4. The cache is bounded at 50 entries, first in first out. Starting from an empty
  cache, 51 calls with distinct keys that each bring a page leave exactly 50 entries:
  the keys of all calls but the first, in the order of the calls; the key stored first
  is gone. A call that finds its key in the cache leaves the cache and its order as
  they are, so taking such a call out of a sequence of calls changes nothing in the
  cache at the end: which entry is evicted depends on the order of insertion alone.
\<close>

theorem cache_fifo_bound:
  "(cache s = [] \<and> length rs = 51 \<and> distinct (map request_key rs)
      \<and> (\<forall>rq\<in>set rs. brings_page rq) \<longrightarrow>
        map_size (cache (resolve_all rs s)) = 50
        \<and> \<not> map_has (cache (resolve_all rs s)) (request_key (hd rs))
        \<and> map fst (cache (resolve_all rs s)) = tl (map request_key rs))
   \<and> (map_has (cache (resolve_all rs1 s)) (cacheKey_of q pg per) \<longrightarrow>
        cache (resolve_all (rs1 @ (q, pg, per, r) # rs2) s) = cache (resolve_all (rs1 @ rs2) s))"
proof
  show "cache s = [] \<and> length rs = 51 \<and> distinct (map request_key rs)
      \<and> (\<forall>rq\<in>set rs. brings_page rq) \<longrightarrow>
        map_size (cache (resolve_all rs s)) = 50
        \<and> \<not> map_has (cache (resolve_all rs s)) (request_key (hd rs))
        \<and> map fst (cache (resolve_all rs s)) = tl (map request_key rs)"
  proof
    assume a: "cache s = [] \<and> length rs = 51 \<and> distinct (map request_key rs)
      \<and> (\<forall>rq\<in>set rs. brings_page rq)"
    then have "map fst (cache (resolve_all rs s)) = drop 1 (map request_key rs)"
      using resolve_all_fifo [of s rs] by simp
    then have keys: "map fst (cache (resolve_all rs s)) = tl (map request_key rs)"
      by (simp add: drop_Suc)
    from a obtain rq rs' where rs: "rs = rq # rs'" by (cases rs) auto
    have "length (map fst (cache (resolve_all rs s))) = 50" unfolding keys using a by simp
    then have "map_size (cache (resolve_all rs s)) = 50" by (simp add: map_size_def)
    moreover have "\<not> map_has (cache (resolve_all rs s)) (request_key (hd rs))"
      unfolding map_has_def keys using a rs by auto
    ultimately show "map_size (cache (resolve_all rs s)) = 50
        \<and> \<not> map_has (cache (resolve_all rs s)) (request_key (hd rs))
        \<and> map fst (cache (resolve_all rs s)) = tl (map request_key rs)"
      using keys by simp
  qed
next
  show "map_has (cache (resolve_all rs1 s)) (cacheKey_of q pg per) \<longrightarrow>
        cache (resolve_all (rs1 @ (q, pg, per, r) # rs2) s) = cache (resolve_all (rs1 @ rs2) s)"
  proof
    assume h: "map_has (cache (resolve_all rs1 s)) (cacheKey_of q pg per)"
    let ?s1 = "resolve_all rs1 s"
    have "cache (snd (fetchAnilist q pg per r ?s1)) = cache ?s1"
      unfolding cache_after_fetch using h by simp
    from resolve_all_cache_cong [OF this, of rs2]
    show "cache (resolve_all (rs1 @ (q, pg, per, r) # rs2) s) = cache (resolve_all (rs1 @ rs2) s)"
      by (simp add: resolve_all_append)
  qed
qed


theorem cache_fifo_bound_witness:
  "cache (initial_widget ''q'' :: nat widget) = []
   \<and> length example_requests = 51
   \<and> distinct (map request_key example_requests)
   \<and> list_all brings_page example_requests
   \<and> map_size (cache (resolve_all example_requests (initial_widget ''q''))) = 50
   \<and> \<not> map_has (cache (resolve_all example_requests (initial_widget ''q'')))
         (request_key (hd example_requests))
   \<and> map_has (cache (resolve_all (take 50 example_requests) (initial_widget ''q'')))
         (cacheKey_of ''q'' 1 20)
   \<and> cache (resolve_all (take 50 example_requests
               @ (''q'', 1, 20, Json (Data (example_page 0))) # drop 50 example_requests)
             (initial_widget ''q''))
       = cache (resolve_all (take 50 example_requests @ drop 50 example_requests)
             (initial_widget ''q''))"
proof -
  have h1: "cache (initial_widget ''q'' :: nat widget) = []" by (simp add: initial_widget_def)
  have h2: "length example_requests = 51" by (simp add: example_requests_def)
  have h3: "distinct (map request_key example_requests)" by code_simp
  have h4: "list_all brings_page example_requests" by code_simp
  then have h4': "\<forall>rq\<in>set example_requests. brings_page rq" by (simp add: list_all_iff)
  have h5: "map_has (cache (resolve_all (take 50 example_requests) (initial_widget ''q'')))
         (cacheKey_of ''q'' 1 20)" by code_simp
  note bound = cache_fifo_bound [of "initial_widget ''q''" example_requests
      "take 50 example_requests" "''q''" 1 20 "Json (Data (example_page 0))"
      "drop 50 example_requests"]
  from bound h1 h2 h3 h4' h5 have
    "map_size (cache (resolve_all example_requests (initial_widget ''q''))) = 50
     \<and> \<not> map_has (cache (resolve_all example_requests (initial_widget ''q'')))
         (request_key (hd example_requests))
     \<and> cache (resolve_all (take 50 example_requests
               @ (''q'', 1, 20, Json (Data (example_page 0))) # drop 50 example_requests)
             (initial_widget ''q''))
       = cache (resolve_all (take 50 example_requests @ drop 50 example_requests)
             (initial_widget ''q''))"
    by blast
  with h1 h2 h3 h4 h5 show ?thesis by blast
qed

section \<open>Query variables and validation\<close>

text \<open>
  C2. The variables of a category search follow the fixed table, whatever the page, the
  page size and the search text are: \<open>NOVEL\<close> gives \<open>format_in = [NOVEL]\<close> and no
  \<open>country\<close> field; \<open>MANGA\<close>, \<open>MANHWA\<close> and \<open>MANHUA\<close> give \<open>format_in = [MANGA]\<close> with
  the country \<open>JP\<close>, \<open>KR\<close> and \<open>CN\<close>. These are the variables \<open>fetchData\<close> sends.
\<close>

theorem build_variables_mapping:
  "v_format_in (build_variables (st\<lparr>currentFormat := Some ''NOVEL''\<rparr>)) = [''NOVEL'']
   \<and> v_country (build_variables (st\<lparr>currentFormat := Some ''NOVEL''\<rparr>)) = None
   \<and> v_format_in (build_variables (st\<lparr>currentFormat := Some ''MANGA''\<rparr>)) = [''MANGA'']
   \<and> v_country (build_variables (st\<lparr>currentFormat := Some ''MANGA''\<rparr>)) = Some ''JP''
   \<and> v_format_in (build_variables (st\<lparr>currentFormat := Some ''MANHWA''\<rparr>)) = [''MANGA'']
   \<and> v_country (build_variables (st\<lparr>currentFormat := Some ''MANHWA''\<rparr>)) = Some ''KR''
   \<and> v_format_in (build_variables (st\<lparr>currentFormat := Some ''MANHUA''\<rparr>)) = [''MANGA'']
   \<and> v_country (build_variables (st\<lparr>currentFormat := Some ''MANHUA''\<rparr>)) = Some ''CN''
   \<and> c_requests (fst (fetchData w response)) = c_requests w @ [build_variables (c_state w)]"
  by (simp add: build_variables_def fetchData_def setStatus_def setError_def Let_def
      split: sum.split payload.split)

text \<open>
  C8. Validation fails fast. A category search with no category selected shows
  \<open>Seleziona una sottocategoria.\<close> in the error box and changes nothing else: no
  request is sent. A free-text search whose text is empty after trimming writes
  \<open>Inserisci un termine di ricerca.\<close> to the status line and changes nothing else:
  \<open>fetchAnilist\<close> is not reached and \<open>fetch\<close> is not called.
\<close>

theorem validation_fails_fast:
  "(currentFormat (c_state w) = None \<longrightarrow>
      cat_doSearch pg response w
        = w\<lparr>c_error_shown := True, c_error_text := ''Seleziona una sottocategoria.''\<rparr>
      \<and> c_requests (cat_doSearch pg response w) = c_requests w)
   \<and> (trim (searchInput_value s) = [] \<longrightarrow>
      doSearch pg r s = s\<lparr>statusEl := ''Inserisci un termine di ricerca.''\<rparr>
      \<and> fst (doSearch_start pg s) = None
      \<and> fetch_calls (doSearch pg r s) = fetch_calls s)"
  by (simp add: cat_doSearch_def setError_def doSearch_def doSearch_start_def Let_def)

theorem validation_fails_fast_witness:
  "currentFormat (c_state (example_world None ''naruto'')) = None
   \<and> c_error_shown (cat_doSearch 1 (Inr (Data \<lparr>cp_pageInfo = None, cp_media = []\<rparr>))
        (example_world None ''naruto''))
   \<and> c_error_text (cat_doSearch 1 (Inr (Data \<lparr>cp_pageInfo = None, cp_media = []\<rparr>))
        (example_world None ''naruto'')) = ''Seleziona una sottocategoria.''
   \<and> c_requests (cat_doSearch 1 (Inr (Data \<lparr>cp_pageInfo = None, cp_media = []\<rparr>))
        (example_world None ''naruto'')) = []
   \<and> trim (searchInput_value (initial_widget ''  '' :: nat widget)) = []
   \<and> statusEl (doSearch 1 (Json (Data (example_page 1))) (initial_widget ''  ''))
       = ''Inserisci un termine di ricerca.''
   \<and> fetch_calls (doSearch 1 (Json (Data (example_page 1))) (initial_widget ''  '')) = 0
   \<and> trim (searchInput_value (initial_widget [CHR 0xC2, CHR 0xA0, CHR 0x20] :: nat widget)) = []
   \<and> fetch_calls (doSearch 1 (Json (Data (example_page 1)))
         (initial_widget [CHR 0xC2, CHR 0xA0, CHR 0x20])) = 0"
proof -
  have a: "currentFormat (c_state (example_world None ''naruto'')) = None"
    by (simp add: example_world_def)
  have b: "trim (searchInput_value (initial_widget ''  '' :: nat widget)) = []"
    by code_simp
  have c: "c_requests (example_world None ''naruto'') = []" by (simp add: example_world_def)
  have d: "fetch_calls (initial_widget ''  '' :: nat widget) = 0" by (simp add: initial_widget_def)
  from validation_fails_fast [where w = "example_world None ''naruto''" and pg = 1
      and response = "Inr (Data \<lparr>cp_pageInfo = None, cp_media = []\<rparr>)"
      and s = "initial_widget ''  ''" and r = "Json (Data (example_page 1))"] a b c d
  have main: "currentFormat (c_state (example_world None ''naruto'')) = None
   \<and> c_error_shown (cat_doSearch 1 (Inr (Data \<lparr>cp_pageInfo = None, cp_media = []\<rparr>))
        (example_world None ''naruto''))
   \<and> c_error_text (cat_doSearch 1 (Inr (Data \<lparr>cp_pageInfo = None, cp_media = []\<rparr>))
        (example_world None ''naruto'')) = ''Seleziona una sottocategoria.''
   \<and> c_requests (cat_doSearch 1 (Inr (Data \<lparr>cp_pageInfo = None, cp_media = []\<rparr>))
        (example_world None ''naruto'')) = []
   \<and> trim (searchInput_value (initial_widget ''  '' :: nat widget)) = []
   \<and> statusEl (doSearch 1 (Json (Data (example_page 1))) (initial_widget ''  ''))
       = ''Inserisci un termine di ricerca.''
   \<and> fetch_calls (doSearch 1 (Json (Data (example_page 1))) (initial_widget ''  '')) = 0"
    by simp
  have e: "trim (searchInput_value (initial_widget [CHR 0xC2, CHR 0xA0, CHR 0x20] :: nat widget))
           = []"
    by code_simp
  have f: "fetch_calls (initial_widget [CHR 0xC2, CHR 0xA0, CHR 0x20] :: nat widget) = 0"
    by (simp add: initial_widget_def)
  from validation_fails_fast [where s = "initial_widget [CHR 0xC2, CHR 0xA0, CHR 0x20]"
      and r = "Json (Data (example_page 1))" and pg = 1 and w = "example_world None ''naruto''"
      and response = "Inr (Data \<lparr>cp_pageInfo = None, cp_media = []\<rparr>)"] e f
  have g: "fetch_calls (doSearch 1 (Json (Data (example_page 1)))
         (initial_widget [CHR 0xC2, CHR 0xA0, CHR 0x20])) = 0"
    by simp
  from main e g show ?thesis by blast
qed

section \<open>API errors\<close>

lemma api_errors_miss:
  assumes "\<not> map_has (cache s) (cacheKey_of q pg per)"
  shows "fst (fetchAnilist q pg per (Json (Errors msgs)) s) = None"
    and "errorEl_shown (snd (fetchAnilist q pg per (Json (Errors msgs)) s))"
    and "errorEl_text (snd (fetchAnilist q pg per (Json (Errors msgs)) s))
         = ''Errore: '' @ join ''; '' msgs"
proof -
  from fetchAnilist_miss [OF assms, of "Json (Errors msgs)"] obtain s1 where
    eq: "fetchAnilist q pg per (Json (Errors msgs)) s
          = fetchAnilist_settle (cacheKey_of q pg per) (length (controllers s1))
              (Json (Errors msgs))
              (s1\<lparr>controllers := controllers s1 @ [False],
                  abortController := Some (length (controllers s1)),
                  fetch_calls := Suc (fetch_calls s)\<rparr>)" by blast
  show "fst (fetchAnilist q pg per (Json (Errors msgs)) s) = None"
    and "errorEl_shown (snd (fetchAnilist q pg per (Json (Errors msgs)) s))"
    and "errorEl_text (snd (fetchAnilist q pg per (Json (Errors msgs)) s))
         = ''Errore: '' @ join ''; '' msgs"
    unfolding eq
    by (simp_all add: fetchAnilist_settle_def settled_as_def signal_fresh
        fetchAnilist_catch_def showError_def)
qed

lemma not_ok_miss:
  assumes "\<not> map_has (cache s) (cacheKey_of q pg per)"
  shows "fst (fetchAnilist q pg per (NotOk status body statusText) s) = None"
    and "errorEl_shown (snd (fetchAnilist q pg per (NotOk status body statusText) s))"
    and "errorEl_text (snd (fetchAnilist q pg per (NotOk status body statusText) s))
         = ''Errore: HTTP '' @ decimal status @ '' '' @ em_dash @ '' ''
           @ (if body \<noteq> [] then body else statusText)"
proof -
  from fetchAnilist_miss [OF assms, of "NotOk status body statusText"] obtain s1 where
    eq: "fetchAnilist q pg per (NotOk status body statusText) s
          = fetchAnilist_settle (cacheKey_of q pg per) (length (controllers s1))
              (NotOk status body statusText)
              (s1\<lparr>controllers := controllers s1 @ [False],
                  abortController := Some (length (controllers s1)),
                  fetch_calls := Suc (fetch_calls s)\<rparr>)" by blast
  show "fst (fetchAnilist q pg per (NotOk status body statusText) s) = None"
    and "errorEl_shown (snd (fetchAnilist q pg per (NotOk status body statusText) s))"
    and "errorEl_text (snd (fetchAnilist q pg per (NotOk status body statusText) s))
         = ''Errore: HTTP '' @ decimal status @ '' '' @ em_dash @ '' ''
           @ (if body \<noteq> [] then body else statusText)"
    unfolding eq
    by (simp_all add: fetchAnilist_settle_def settled_as_def signal_fresh
        fetchAnilist_catch_def showError_def)
qed

text \<open>
  C5, as the code has it. The free-text search, which has the cache, reads the payload
  only of a response whose \<open>ok\<close> is true. When such a response carries an error list,
  the exception raised carries the reported messages joined by \<open>; \<close> (\<open>bad; worse\<close> for
  the two messages \<open>bad\<close> and \<open>worse\<close>) and the error box shows this text after the
  prefix \<open>Errore: \<close>. When \<open>ok\<close> is false, whatever the body holds, the error box shows
  \<open>Errore: HTTP\<close>, the status, a dash and the text of the body, or the status text when
  the body is empty. In both cases no page is returned and the cache stays as it was,
  so no entry is made for the key. The category search, which has no cache and does not
  look at the status, shows the joined text itself when it is not empty.
\<close>

theorem api_errors_joined_not_cached:
  "(\<not> map_has (cache s) (cacheKey_of q pg per) \<longrightarrow>
      fst (fetchAnilist q pg per (Json (Errors msgs)) s) = None
      \<and> errorEl_shown (snd (fetchAnilist q pg per (Json (Errors msgs)) s))
      \<and> errorEl_text (snd (fetchAnilist q pg per (Json (Errors msgs)) s))
        = ''Errore: '' @ join ''; '' msgs
      \<and> \<not> map_has (cache (snd (fetchAnilist q pg per (Json (Errors msgs)) s)))
            (cacheKey_of q pg per)
      \<and> fst (fetchAnilist q pg per (NotOk status body statusText) s) = None
      \<and> errorEl_shown (snd (fetchAnilist q pg per (NotOk status body statusText) s))
      \<and> errorEl_text (snd (fetchAnilist q pg per (NotOk status body statusText) s))
        = ''Errore: HTTP '' @ decimal status @ '' '' @ em_dash @ '' ''
          @ (if body \<noteq> [] then body else statusText)
      \<and> \<not> map_has (cache (snd (fetchAnilist q pg per (NotOk status body statusText) s)))
            (cacheKey_of q pg per))
   \<and> cache (snd (fetchAnilist q pg per (Json (Errors msgs)) s)) = cache s
   \<and> cache (snd (fetchAnilist q pg per (NotOk status body statusText) s)) = cache s
   \<and> (currentFormat (c_state w) \<noteq> None \<and> currentFormat (c_state w) \<noteq> Some []
        \<and> join ''; '' msgs \<noteq> [] \<longrightarrow>
      c_error_shown (cat_doSearch n (Inr (Errors msgs)) w)
      \<and> c_error_text (cat_doSearch n (Inr (Errors msgs)) w) = join ''; '' msgs)
   \<and> join ''; '' [''bad'', ''worse''] = ''bad; worse''"
proof -
  have c: "cache (snd (fetchAnilist q pg per (Json (Errors msgs)) s)) = cache s"
    by (simp add: cache_after_fetch)
  have c': "cache (snd (fetchAnilist q pg per (NotOk status body statusText) s)) = cache s"
    by (simp add: cache_after_fetch)
  have "currentFormat (c_state w) \<noteq> None \<and> currentFormat (c_state w) \<noteq> Some []
        \<and> join ''; '' msgs \<noteq> [] \<longrightarrow>
      c_error_shown (cat_doSearch n (Inr (Errors msgs)) w)
      \<and> c_error_text (cat_doSearch n (Inr (Errors msgs)) w) = join ''; '' msgs"
    by (simp add: cat_doSearch_def fetchData_def setError_def setStatus_def Let_def)
  moreover have "join ''; '' [''bad'', ''worse''] = ''bad; worse''" by simp
  ultimately show ?thesis
    using api_errors_miss [of s q pg per msgs] not_ok_miss [of s q pg per status body statusText]
      c c'
    by simp
qed

theorem api_errors_joined_not_cached_witness:
  "\<not> map_has (cache (initial_widget ''q'' :: nat widget)) (cacheKey_of ''q'' 1 20)
   \<and> errorEl_text (snd (fetchAnilist ''q'' 1 20 (Json (Errors [''bad'', ''worse'']))
        (initial_widget ''q'' :: nat widget))) = ''Errore: bad; worse''
   \<and> cache (snd (fetchAnilist ''q'' 1 20 (Json (Errors [''bad'', ''worse'']))
        (initial_widget ''q'' :: nat widget))) = []
   \<and> errorEl_text (snd (fetchAnilist ''q'' 1 20 (NotOk 400 example_error_body ''Bad Request'')
        (initial_widget ''q'' :: nat widget)))
       = ''Errore: HTTP 400 '' @ em_dash @ '' '' @ example_error_body
   \<and> cache (snd (fetchAnilist ''q'' 1 20 (NotOk 400 example_error_body ''Bad Request'')
        (initial_widget ''q'' :: nat widget))) = []
   \<and> currentFormat (c_state (example_world (Some ''MANGA'') ''q'')) \<noteq> None
   \<and> currentFormat (c_state (example_world (Some ''MANGA'') ''q'')) \<noteq> Some []
   \<and> join ''; '' [''bad'', ''worse''] \<noteq> []
   \<and> c_error_text (cat_doSearch 1 (Inr (Errors [''bad'', ''worse'']))
        (example_world (Some ''MANGA'') ''q'')) = ''bad; worse''"
proof -
  have a: "\<not> map_has (cache (initial_widget ''q'' :: nat widget)) (cacheKey_of ''q'' 1 20)"
    by (simp add: initial_widget_def map_has_def)
  have b: "cache (initial_widget ''q'' :: nat widget) = []" by (simp add: initial_widget_def)
  have c: "currentFormat (c_state (example_world (Some ''MANGA'') ''q'')) \<noteq> None"
    "currentFormat (c_state (example_world (Some ''MANGA'') ''q'')) \<noteq> Some []"
    by (simp_all add: example_world_def)
  have d: "join ''; '' [''bad'', ''worse''] \<noteq> []" by simp
  have e: "example_error_body \<noteq> []" by (simp add: example_error_body_def)
  have f: "decimal 400 = ''400''" by code_simp
  from api_errors_joined_not_cached [where s = "initial_widget ''q'' :: nat widget"
      and q = "''q''" and pg = 1 and per = 20 and msgs = "[''bad'', ''worse'']"
      and status = 400 and body = example_error_body and statusText = "''Bad Request''"
      and w = "example_world (Some ''MANGA'') ''q''" and n = 1] a b c d e f
  show ?thesis by simp
qed

text \<open>
  C5 as the specification states it fails twice. With \<open>ok\<close> true the error box of the
  free-text search does not hold \<open>bad; worse\<close> itself: it holds \<open>Errore: bad; worse\<close>.
  With the same error list in the body of a response of status 400 it holds the status
  and the body as they came, not the joined messages.
\<close>

theorem api_error_message_counterexample:
  "errorEl_text (snd (fetchAnilist ''q'' 1 20 (Json (Errors [''bad'', ''worse'']))
        (initial_widget ''q'' :: nat widget))) = ''Errore: bad; worse''
   \<and> errorEl_text (snd (fetchAnilist ''q'' 1 20 (Json (Errors [''bad'', ''worse'']))
        (initial_widget ''q'' :: nat widget))) \<noteq> ''bad; worse''
   \<and> errorEl_text (snd (fetchAnilist ''q'' 1 20 (NotOk 400 example_error_body ''Bad Request'')
        (initial_widget ''q'' :: nat widget)))
       = ''Errore: HTTP 400 '' @ em_dash @ '' '' @ example_error_body
   \<and> errorEl_text (snd (fetchAnilist ''q'' 1 20 (NotOk 400 example_error_body ''Bad Request'')
        (initial_widget ''q'' :: nat widget))) \<noteq> ''bad; worse''
   \<and> errorEl_text (snd (fetchAnilist ''q'' 1 20 (NotOk 400 example_error_body ''Bad Request'')
        (initial_widget ''q'' :: nat widget))) \<noteq> ''Errore: bad; worse''"
  by code_simp

section \<open>Cancelled requests\<close>

lemma settle_aborted:
  assumes "signal_aborted s signal"
  shows "fetchAnilist_settle k signal r s
         = (None, s\<lparr>statusEl := ''Richiesta annullata.'', searchBtn_disabled := False\<rparr>)"
  using assms by (simp add: fetchAnilist_settle_def settled_as_def fetchAnilist_catch_def)

lemma start_aborts_current:
  assumes "abortController s = Some c" and "c < length (controllers s)"
    and "\<not> map_has (cache s) (cacheKey_of q pg per)"
  shows "signal_aborted (snd (fetchAnilist_start q pg per s)) c"
  using assms
  by (simp add: fetchAnilist_start_def Let_def clearError_def signal_aborted_def nth_append)

lemma nth_update_True: "c < length xs \<Longrightarrow> xs ! c \<Longrightarrow> (xs[a := True]) ! c"
  by (cases "a < length xs") (auto simp: nth_list_update)

lemma start_keeps_aborted:
  assumes "signal_aborted s c"
  shows "signal_aborted (snd (fetchAnilist_start q pg per s)) c"
proof (cases "map_has (cache s) (cacheKey_of q pg per)")
  case True
  then obtain cached where "map_get (cache s) (cacheKey_of q pg per) = Some cached"
    by (auto simp: map_has_get)
  from start_hit(4) [OF this] assms show ?thesis by (simp add: signal_aborted_def)
next
  case False
  with assms show ?thesis
    by (cases "abortController s")
      (auto simp: fetchAnilist_start_def Let_def clearError_def signal_aborted_def nth_append
        nth_update_True)
qed

lemma settle_keeps_controllers:
  "controllers (snd (fetchAnilist_settle k signal r s)) = controllers s"
  by (simp add: fetchAnilist_settle_def fetchAnilist_catch_def showError_def Let_def
      split: response.split payload.split)

text \<open>
  C6, as the code has it. Starting a request while another is in flight aborts the
  controller of the other, and an aborted controller stays aborted. When the request of
  an aborted controller ends, whatever the server sent, \<open>fetchAnilist\<close> returns \<open>null\<close>
  and changes two things only: the status line becomes \<open>Richiesta annullata.\<close> and the
  search button is enabled. The cache, the error box, the last page information, the
  table and the pager stay as they are: nothing of a cancelled request is cached,
  shown as an error or rendered.
\<close>

theorem cancelled_request_effects:
  "(signal_aborted s signal \<longrightarrow>
      fetchAnilist_settle k signal r s
        = (None, s\<lparr>statusEl := ''Richiesta annullata.'', searchBtn_disabled := False\<rparr>)
      \<and> doSearch_settle k signal r s
        = s\<lparr>statusEl := ''Richiesta annullata.'', searchBtn_disabled := False\<rparr>)
   \<and> (abortController s = Some c \<and> c < length (controllers s)
        \<and> \<not> map_has (cache s) (cacheKey_of q pg per) \<longrightarrow>
      signal_aborted (snd (fetchAnilist_start q pg per s)) c)
   \<and> (signal_aborted s c \<longrightarrow>
      signal_aborted (snd (fetchAnilist_start q pg per s)) c
      \<and> signal_aborted (snd (fetchAnilist_settle k signal r s)) c)"
proof -
  have "signal_aborted s c \<longrightarrow> signal_aborted (snd (fetchAnilist_settle k signal r s)) c"
    by (simp add: signal_aborted_def settle_keeps_controllers)
  then show ?thesis
    using settle_aborted [of s signal k r] start_aborts_current [of s c q pg per]
      start_keeps_aborted [of s c q pg per]
    by (simp add: doSearch_settle_def doSearch_render_def)
qed

theorem cancelled_request_effects_witness:
  "signal_aborted example_superseded 0
   \<and> fetchAnilist_settle (cacheKey_of ''a'' 1 20) 0 (Json (Data (example_page 1)))
        example_superseded
      = (None, example_superseded\<lparr>statusEl := ''Richiesta annullata.'',
                 searchBtn_disabled := False\<rparr>)
   \<and> cache (snd (fetchAnilist_settle (cacheKey_of ''a'' 1 20) 0 (Json (Data (example_page 1)))
        example_superseded)) = []
   \<and> \<not> errorEl_shown (snd (fetchAnilist_settle (cacheKey_of ''a'' 1 20) 0
        (Json (Errors [''bad''])) example_superseded))
   \<and> abortController example_in_flight = Some 0
   \<and> 0 < length (controllers example_in_flight)
   \<and> \<not> map_has (cache example_in_flight) (cacheKey_of ''b'' 1 20)
   \<and> signal_aborted (snd (fetchAnilist_start ''b'' 1 20 example_in_flight)) 0"
proof -
  have a: "signal_aborted example_superseded 0" by code_simp
  have b: "cache example_superseded = []" by code_simp
  have c: "\<not> errorEl_shown example_superseded" by code_simp
  have d: "abortController example_in_flight = Some 0" by code_simp
  have e: "0 < length (controllers example_in_flight)" by code_simp
  have f: "\<not> map_has (cache example_in_flight) (cacheKey_of ''b'' 1 20)" by code_simp
  note t1 = cancelled_request_effects [where s = example_superseded and signal = 0
      and k = "cacheKey_of ''a'' 1 20" and r = "Json (Data (example_page 1))"]
  note t2 = cancelled_request_effects [where s = example_superseded and signal = 0
      and k = "cacheKey_of ''a'' 1 20" and r = "Json (Errors [''bad''])"]
  note t3 = cancelled_request_effects [where s = example_in_flight and c = 0
      and q = "''b''" and pg = 1 and per = 20]
  from t1 a have g: "fetchAnilist_settle (cacheKey_of ''a'' 1 20) 0 (Json (Data (example_page 1)))
        example_superseded
      = (None, example_superseded\<lparr>statusEl := ''Richiesta annullata.'',
                 searchBtn_disabled := False\<rparr>)" by blast
  from t2 a have h: "fetchAnilist_settle (cacheKey_of ''a'' 1 20) 0 (Json (Errors [''bad'']))
        example_superseded
      = (None, example_superseded\<lparr>statusEl := ''Richiesta annullata.'',
                 searchBtn_disabled := False\<rparr>)" by blast
  from t3 d e f have i: "signal_aborted (snd (fetchAnilist_start ''b'' 1 20 example_in_flight)) 0"
    by blast
  have g': "cache (snd (fetchAnilist_settle (cacheKey_of ''a'' 1 20) 0
        (Json (Data (example_page 1))) example_superseded)) = []"
    unfolding g by (simp add: b)
  have h': "\<not> errorEl_shown (snd (fetchAnilist_settle (cacheKey_of ''a'' 1 20) 0
        (Json (Errors [''bad''])) example_superseded))"
    unfolding h by (simp add: c)
  show ?thesis using a g g' h' d e f i by blast
qed

text \<open>
  C6 as the specification states it fails: there is a status update on behalf of a
  cancelled request. With the second search in flight,
  the end of the first, aborted request replaces the status line of the second.
\<close>

theorem cancelled_status_counterexample:
  "signal_aborted example_superseded 0
   \<and> statusEl example_superseded = ''Caricamento'' @ ellipsis
   \<and> statusEl (snd (fetchAnilist_settle (cacheKey_of ''a'' 1 20) 0
        (Json (Data (example_page 1))) example_superseded)) = ''Richiesta annullata.''
   \<and> statusEl (snd (fetchAnilist_settle (cacheKey_of ''a'' 1 20) 0
        (Json (Data (example_page 1))) example_superseded)) \<noteq> statusEl example_superseded"
  by code_simp

section \<open>The CSV grid\<close>

lemma split_not_empty: "split s sep \<noteq> []"
  by (induction s) (auto split: list.split)

lemma join_Cons: "join sep (x # xs) = (if xs = [] then x else x @ sep @ join sep xs)"
  by (cases xs) auto

lemma join_split: "join [sep] (split s sep) = s"
proof (induction s)
  case Nil
  then show ?case by simp
next
  case (Cons c cs)
  show ?case
  proof (cases "c = sep")
    case True
    with Cons show ?thesis by (simp add: join_Cons split_not_empty)
  next
    case False
    obtain r rs where sp: "split cs sep = r # rs"
      using split_not_empty [of cs sep] by (cases "split cs sep") auto
    with Cons False show ?thesis by (auto simp: join_Cons split: if_splits)
  qed
qed

lemma split_pieces: "piece \<in> set (split s sep) \<Longrightarrow> sep \<notin> set piece"
proof (induction s arbitrary: piece)
  case Nil
  then show ?case by simp
next
  case (Cons c cs)
  show ?case
  proof (cases "c = sep")
    case True
    with Cons show ?thesis by auto
  next
    case False
    obtain r rs where sp: "split cs sep = r # rs"
      using split_not_empty [of cs sep] by (cases "split cs sep") auto
    with Cons.prems False have "piece = c # r \<or> piece \<in> set rs" by simp
    with Cons.IH sp False show ?thesis by auto
  qed
qed

lemma strip_leading_decomposition:
  "\<exists>wl. set wl \<subseteq> set ws \<and> s = concat wl @ strip_leading ws s"
proof (induction ws s rule: strip_leading.induct)
  case (1 ws s)
  show ?case
  proof (cases "find (\<lambda>w. w \<noteq> [] \<and> startsWith s w) ws")
    case None
    then have "strip_leading ws s = s" by (simp add: strip_leading.simps)
    then have "set [] \<subseteq> set ws \<and> s = concat [] @ strip_leading ws s" by simp
    then show ?thesis by blast
  next
    case (Some w)
    then have w: "w \<in> set ws" "startsWith s w" by (auto simp: find_Some_iff)
    then have s: "s = w @ drop (length w) s" by (auto simp: startsWith_iff)
    from "1.IH" [OF Some] obtain wl where
      wl: "set wl \<subseteq> set ws" "drop (length w) s = concat wl @ strip_leading ws (drop (length w) s)"
      by blast
    from Some have st: "strip_leading ws s = strip_leading ws (drop (length w) s)"
      by (simp add: strip_leading.simps [of ws s])
    have "set (w # wl) \<subseteq> set ws" using w wl by simp
    moreover have "s = concat (w # wl) @ strip_leading ws s"
      using s wl(2) st by simp
    ultimately show ?thesis by blast
  qed
qed

lemma strip_leading_done:
  "w \<in> set ws \<Longrightarrow> w \<noteq> [] \<Longrightarrow> \<not> startsWith (strip_leading ws s) w"
proof (induction ws s rule: strip_leading.induct)
  case (1 ws s)
  show ?case
  proof (cases "find (\<lambda>w. w \<noteq> [] \<and> startsWith s w) ws")
    case None
    then have "strip_leading ws s = s" by (simp add: strip_leading.simps)
    moreover from None "1.prems" have "\<not> startsWith s w" by (auto simp: find_None_iff)
    ultimately show ?thesis by simp
  next
    case (Some v)
    then have "strip_leading ws s = strip_leading ws (drop (length v) s)"
      by (simp add: strip_leading.simps [of ws s])
    with "1.IH" [OF Some "1.prems"] show ?thesis by simp
  qed
qed

lemma white_space_not_empty: "w \<in> set white_space \<Longrightarrow> w \<noteq> []"
  by (auto simp: white_space_def)

text \<open>What \<open>trim\<close> takes away is white space at both ends.\<close>

lemma trim_decomposition:
  "\<exists>wpre wpost. set wpre \<subseteq> set white_space \<and> set wpost \<subseteq> set white_space
      \<and> s = concat wpre @ trim s @ concat wpost"
proof -
  let ?t = "strip_leading white_space s"
  let ?r = "strip_leading (map rev white_space) (rev ?t)"
  from strip_leading_decomposition [of white_space s] obtain wpre where
    pre: "set wpre \<subseteq> set white_space" "s = concat wpre @ ?t" by blast
  from strip_leading_decomposition [of "map rev white_space" "rev ?t"] obtain wl where
    wl: "set wl \<subseteq> set (map rev white_space)" "rev ?t = concat wl @ ?r" by blast
  from wl(2) have "rev (rev ?t) = rev (concat wl @ ?r)" by (rule arg_cong)
  then have t: "?t = trim s @ concat (map rev (rev wl))"
    by (simp add: trim_def rev_concat)
  have "set (map rev (rev wl)) \<subseteq> set white_space"
    using wl(1) by (auto simp: rev_rev_ident)
  with pre t show ?thesis by (metis append.assoc)
qed

text \<open>What \<open>trim\<close> leaves neither begins nor ends with white space.\<close>

lemma trim_ends:
  assumes "w \<in> set white_space"
  shows "\<not> (\<exists>rest. trim s = w @ rest)" and "\<not> (\<exists>front. trim s = front @ w)"
proof -
  let ?t = "strip_leading white_space s"
  let ?r = "strip_leading (map rev white_space) (rev ?t)"
  have ne: "w \<noteq> []" by (rule white_space_not_empty [OF assms])
  have "\<not> startsWith ?r (rev w)"
    by (rule strip_leading_done) (use assms ne in auto)
  then have "\<not> (\<exists>post. rev (trim s) = rev w @ post)"
    by (simp add: trim_def startsWith_iff)
  then show "\<not> (\<exists>front. trim s = front @ w)"
    by (metis rev_append)
  from strip_leading_decomposition [of "map rev white_space" "rev ?t"] obtain wl where
    "rev ?t = concat wl @ ?r" by blast
  then have "rev (rev ?t) = rev (concat wl @ ?r)" by (rule arg_cong)
  then have t: "?t = trim s @ rev (concat wl)" by (simp add: trim_def)
  have "\<not> startsWith ?t w" by (rule strip_leading_done [OF assms ne])
  then have "\<not> (\<exists>post. ?t = w @ post)" by (simp add: startsWith_iff)
  with t show "\<not> (\<exists>rest. trim s = w @ rest)" by (metis append.assoc)
qed

lemma render_rows_text: "map (map snd) (render_rows i rows) = map (map trim) rows"
  by (induction i rows rule: render_rows.induct) (simp_all add: comp_def)

lemma render_rows_td:
  "0 < i \<Longrightarrow> row \<in> set (render_rows i rows) \<Longrightarrow> cell \<in> set row \<Longrightarrow> fst cell = TD"
  by (induction i rows rule: render_rows.induct) auto

text \<open>
  C9. The CSV utility turns the text read into a grid of strings: the text of the cells
  of the table is, row by row, what splitting the trimmed text at line feeds and each
  row at commas gives, each cell trimmed. There is always a first row, its cells are
  \<open>th\<close> elements, and the cells of all other rows are \<open>td\<close> elements. Splitting is
  literal, with no quoting or escaping: the pieces joined with the separator give the
  string back, and no piece holds the separator. Trimming takes white space characters,
  those of \<open>String.prototype.trim\<close>, and nothing else, from both ends, and what it leaves
  neither begins nor ends with one.
\<close>

theorem csv_grid:
  "map (map snd) (reader_onload input)
     = map (\<lambda>row. map trim (split row CHR '','')) (split (trim input) CHR 0x0A)
   \<and> reader_onload input \<noteq> []
   \<and> (\<forall>cell\<in>set (hd (reader_onload input)). fst cell = TH)
   \<and> (\<forall>row\<in>set (tl (reader_onload input)). \<forall>cell\<in>set row. fst cell = TD)
   \<and> join [sep] (split s sep) = s
   \<and> (\<forall>piece\<in>set (split s sep). sep \<notin> set piece)
   \<and> (\<exists>wpre wpost. set wpre \<subseteq> set white_space \<and> set wpost \<subseteq> set white_space
         \<and> s = concat wpre @ trim s @ concat wpost)
   \<and> (\<forall>w\<in>set white_space.
         \<not> (\<exists>rest. trim s = w @ rest) \<and> \<not> (\<exists>front. trim s = front @ w))"
proof -
  obtain r rs where rows: "csv_rows input = r # rs"
    using split_not_empty [of "trim input" "CHR 0x0A"]
    by (cases "csv_rows input") (auto simp: csv_rows_def)
  have grid: "map (map snd) (reader_onload input)
     = map (\<lambda>row. map trim (split row CHR '','')) (split (trim input) CHR 0x0A)"
    by (simp add: reader_onload_def render_rows_text csv_rows_def comp_def)
  have ne: "reader_onload input \<noteq> []" by (simp add: reader_onload_def rows)
  have th: "\<forall>cell\<in>set (hd (reader_onload input)). fst cell = TH"
    by (auto simp: reader_onload_def rows)
  have td: "\<forall>row\<in>set (tl (reader_onload input)). \<forall>cell\<in>set row. fst cell = TD"
    using render_rows_td [of "Suc 0" _ rs] by (auto simp: reader_onload_def rows)
  from grid ne th td trim_decomposition [of s] join_split [of sep s] split_pieces [of _ s sep]
    trim_ends [of _ s]
  show ?thesis by blast
qed

theorem csv_grid_witness:
  "reader_onload example_csv
       = [[(TH, ''name''), (TH, ''age'')], [(TD, ''Ann''), (TD, ''3''), (TD, [])]]
   \<and> map (map snd) (reader_onload example_csv) = [[''name'', ''age''], [''Ann'', ''3'', []]]
   \<and> reader_onload example_csv_unicode
       = [[(TH, ''id''), (TH, ''name'')], [(TD, ''1''), (TD, ''x'')]]
   \<and> map (map snd) (reader_onload example_csv_unicode) = [[''id'', ''name''], [''1'', ''x'']]
   \<and> list_all (\<lambda>cell. fst cell = TH) (hd (reader_onload example_csv_unicode))
   \<and> list_all (list_all (\<lambda>cell. fst cell = TD)) (tl (reader_onload example_csv_unicode))
   \<and> join '','' (split ''Ann ,3,'' CHR '','') = ''Ann ,3,''
   \<and> list_all (\<lambda>piece. CHR '','' \<notin> set piece) (split ''Ann ,3,'' CHR '','')
   \<and> [CHR 0xC2, CHR 0xA0] \<in> set white_space
   \<and> trim ([CHR 0xC2, CHR 0xA0] @ ''name'' @ [CHR 0xE2, CHR 0x80, CHR 0x83]) = ''name''
   \<and> \<not> (\<exists>rest. trim ([CHR 0xC2, CHR 0xA0] @ ''name'' @ [CHR 0xE2, CHR 0x80, CHR 0x83])
          = [CHR 0xC2, CHR 0xA0] @ rest)"
proof -
  note g = csv_grid [where input = example_csv and s = "''Ann ,3,''" and sep = "CHR '',''"]
  note u = csv_grid [where input = example_csv_unicode
      and s = "[CHR 0xC2, CHR 0xA0] @ ''name'' @ [CHR 0xE2, CHR 0x80, CHR 0x83]"
      and sep = "CHR '',''"]
  have v: "reader_onload example_csv
       = [[(TH, ''name''), (TH, ''age'')], [(TD, ''Ann''), (TD, ''3''), (TD, [])]]"
    by code_simp
  have vu: "reader_onload example_csv_unicode
       = [[(TH, ''id''), (TH, ''name'')], [(TD, ''1''), (TD, ''x'')]]"
    by code_simp
  have sp: "map (\<lambda>row. map trim (split row CHR '','')) (split (trim example_csv) CHR 0x0A)
      = [[''name'', ''age''], [''Ann'', ''3'', []]]" by code_simp
  have spu: "map (\<lambda>row. map trim (split row CHR '','')) (split (trim example_csv_unicode) CHR 0x0A)
      = [[''id'', ''name''], [''1'', ''x'']]" by code_simp
  have nb: "[CHR 0xC2, CHR 0xA0] \<in> set white_space" by (simp add: white_space_def)
  have t: "trim ([CHR 0xC2, CHR 0xA0] @ ''name'' @ [CHR 0xE2, CHR 0x80, CHR 0x83]) = ''name''"
    by code_simp
  from g sp have 1: "map (map snd) (reader_onload example_csv)
      = [[''name'', ''age''], [''Ann'', ''3'', []]]" by simp
  from u spu have 2: "map (map snd) (reader_onload example_csv_unicode)
      = [[''id'', ''name''], [''1'', ''x'']]" by simp
  from u have 3: "list_all (\<lambda>cell. fst cell = TH) (hd (reader_onload example_csv_unicode))"
    and 4: "list_all (list_all (\<lambda>cell. fst cell = TD)) (tl (reader_onload example_csv_unicode))"
    unfolding list_all_iff by blast+
  from g have 5: "join '','' (split ''Ann ,3,'' CHR '','') = ''Ann ,3,''"
    and 6: "list_all (\<lambda>piece. CHR '','' \<notin> set piece) (split ''Ann ,3,'' CHR '','')"
    unfolding list_all_iff by blast+
  from u nb have 7:
    "\<not> (\<exists>rest. trim ([CHR 0xC2, CHR 0xA0] @ ''name'' @ [CHR 0xE2, CHR 0x80, CHR 0x83])
          = [CHR 0xC2, CHR 0xA0] @ rest)"
    by blast
  from v vu 1 2 3 4 5 6 7 nb t show ?thesis by blast
qed

section \<open>The selectors leave their input unchanged\<close>

lemma kept_refl: "kept h h"
  by (simp add: kept_def)

lemma fst_array_filter: "fst (array_filter p a h) = next_array h"
  by (simp add: array_filter_def)

lemma kept_filter: "kept h0 h \<Longrightarrow> kept h0 (snd (array_filter p a h))"
  by (simp add: kept_def array_filter_def)

lemma next_array_filter: "next_array (snd (array_filter p a h)) = Suc (next_array h)"
  by (simp add: array_filter_def)

lemma kept_sort:
  "kept h0 h \<Longrightarrow> next_array h0 \<le> b \<Longrightarrow> kept h0 (array_sort_in_place cmp b h)"
  by (simp add: kept_def array_sort_in_place_def)

lemma kept_next: "kept h0 h \<Longrightarrow> next_array h0 \<le> next_array h"
  by (simp add: kept_def)

lemma pickProtagonist_heap_kept: "kept h (snd (pickProtagonist_heap c h))"
proof (cases c)
  case None
  then show ?thesis by (simp add: pickProtagonist_heap_def kept_refl)
next
  case (Some ces)
  let ?f1 = "array_filter (\<lambda>el. valid_at h el \<noteq> None) ces h"
  let ?h1 = "snd ?f1"
  let ?edges = "fst ?f1"
  let ?f2 = "array_filter (holds_at ?h1 is_main) ?edges ?h1"
  let ?h2 = "snd ?f2"
  let ?f3 = "array_filter (holds_at ?h2 has_numeric_fav) ?edges ?h2"
  let ?h3 = "snd ?f3"
  have k1: "kept h ?h1" by (intro kept_filter kept_refl)
  have k2: "kept h ?h2" by (intro kept_filter k1)
  have k3: "kept h ?h3" by (intro kept_filter k2)
  have b2: "next_array h \<le> fst ?f2"
    using kept_next [OF k1] by (simp add: fst_array_filter)
  have b3: "next_array h \<le> fst ?f3"
    using kept_next [OF k2] by (simp add: fst_array_filter)
  have s2: "kept h (array_sort_in_place cmp (fst ?f2) ?h2)" for cmp
    by (rule kept_sort [OF k2 b2])
  have s3: "kept h (array_sort_in_place cmp (fst ?f3) ?h3)" for cmp
    by (rule kept_sort [OF k3 b3])
  show ?thesis
    unfolding pickProtagonist_heap_def Some option.case Let_def case_prod_beta
    using k1 k2 k3 s2 s3
    by (simp split: list.split option.split)
qed

lemma pickMainStaff_heap_kept: "kept h (snd (pickMainStaff_heap c h))"
proof (cases c)
  case None
  then show ?thesis by (simp add: pickMainStaff_heap_def kept_refl)
next
  case (Some ses)
  let ?f1 = "array_filter (\<lambda>el. valid_at h el \<noteq> None) ses h"
  let ?h1 = "snd ?f1"
  let ?edges = "fst ?f1"
  let ?f2 = "array_filter (holds_at ?h1 has_creator_role) ?edges ?h1"
  let ?h2 = "snd ?f2"
  have k1: "kept h ?h1" by (intro kept_filter kept_refl)
  have k2: "kept h ?h2" by (intro kept_filter k1)
  have b1: "next_array h \<le> ?edges" unfolding fst_array_filter by simp
  have b2: "next_array h \<le> fst ?f2"
    using kept_next [OF k1] by (simp add: fst_array_filter)
  have s1: "kept h (array_sort_in_place cmp ?edges ?h2)" for cmp
    by (rule kept_sort [OF k2 b1])
  have s2: "kept h (array_sort_in_place cmp (fst ?f2) ?h2)" for cmp
    by (rule kept_sort [OF k2 b2])
  show ?thesis
    unfolding pickMainStaff_heap_def Some option.case Let_def case_prod_beta
    using k1 k2 s1 s2
    by (simp split: list.split option.split)
qed

text \<open>
  C10. \<open>pickProtagonist\<close> and \<open>pickMainStaff\<close> do not change their input. Whatever the
  heap and the argument are, every array that is on the heap before the call, the
  \<open>edges\<close> array of the argument among them, has the same entries in the same order
  after the call, and every edge object is as it was: the arrays that are sorted are
  the ones the call made itself with \<open>filter\<close>.
\<close>

theorem selectors_leave_input_unchanged:
  "(\<forall>a. a < next_array h \<longrightarrow> arrays (snd (pickProtagonist_heap c h)) a = arrays h a)
   \<and> objects (snd (pickProtagonist_heap c h)) = objects h
   \<and> (\<forall>a. a < next_array h \<longrightarrow> arrays (snd (pickMainStaff_heap c h)) a = arrays h a)
   \<and> objects (snd (pickMainStaff_heap c h)) = objects h"
  using pickProtagonist_heap_kept [of h c] pickMainStaff_heap_kept [of h c]
  by (simp add: kept_def)


text \<open>Reading the heap after \<open>filter\<close> and \<open>sort\<close>.\<close>

lemma objects_filter: "objects (snd (array_filter p a h)) = objects h"
  by (simp add: array_filter_def)

lemma objects_sort: "objects (array_sort_in_place cmp b h) = objects h"
  by (simp add: array_sort_in_place_def)

lemma valid_at_objects: "objects h' = objects h \<Longrightarrow> valid_at h' = valid_at h"
  by (intro ext) (simp add: valid_at_def deref_def split: option.split)

lemma holds_at_objects: "objects h' = objects h \<Longrightarrow> holds_at h' = holds_at h"
  using valid_at_objects [of h' h] by (intro ext) (simp add: holds_at_def)

lemma compare_at_objects: "objects h' = objects h \<Longrightarrow> compare_at h' = compare_at h"
  using valid_at_objects [of h' h] by (intro ext) (simp add: compare_at_def)

lemma elements_filter:
  "elements (snd (array_filter p a h)) b
   = (if b = next_array h then filter p (elements h a) else elements h b)"
  by (simp add: array_filter_def elements_def)

lemma elements_sort:
  "elements (array_sort_in_place cmp b h) b'
   = (if b' = b then array_sort cmp (elements h b) else elements h b')"
  by (simp add: array_sort_in_place_def elements_def)

lemmas heap_reads =
  fst_array_filter next_array_filter elements_filter elements_sort
  valid_at_objects [OF objects_filter] valid_at_objects [OF objects_sort]
  holds_at_objects [OF objects_filter] holds_at_objects [OF objects_sort]
  compare_at_objects [OF objects_filter] compare_at_objects [OF objects_sort]

text \<open>The result of \<open>pickProtagonist\<close> on the heap, in terms of the entries of its argument.\<close>

lemma pickProtagonist_heap_entries:
  "fst (pickProtagonist_heap (Some a) h) =
     (let edges = filter (\<lambda>el. valid_at h el \<noteq> None) (elements h a) in
      if edges = [] then None
      else
        let mainEdges = filter (holds_at h is_main) edges in
        if length mainEdges = 1 then
          (case mainEdges of e # _ \<Rightarrow> map_option protagonist_of (valid_at h e) | [] \<Rightarrow> None)
        else if length mainEdges > 1 then
          (case array_sort (compare_at h) mainEdges of
             e # _ \<Rightarrow> map_option protagonist_of (valid_at h e) | [] \<Rightarrow> None)
        else
          let edgesWithFav = filter (holds_at h has_numeric_fav) edges in
          if length edgesWithFav > 0 then
            (case array_sort (compare_at h) edgesWithFav of
               e # _ \<Rightarrow> map_option protagonist_of (valid_at h e) | [] \<Rightarrow> None)
          else
            (case find (holds_at h has_name) edges of
               Some firstWithName \<Rightarrow> map_option protagonist_of (valid_at h firstWithName)
             | None \<Rightarrow> None))"
  unfolding pickProtagonist_heap_def option.case Let_def case_prod_beta
  by (simp add: heap_reads split: list.split option.split)


lemma set_sort_insert: "set (sort_insert cmp x ys) = insert x (set ys)"
  by (induction ys) auto

lemma set_array_sort: "set (array_sort cmp xs) = set xs"
  by (induction xs) (simp_all add: array_sort_def set_sort_insert)

lemma sort_insert_map:
  "\<forall>y\<in>set ys. cmp' x y = cmp (f x) (f y) \<Longrightarrow>
   map f (sort_insert cmp' x ys) = sort_insert cmp (f x) (map f ys)"
  by (induction ys) auto

lemma array_sort_map:
  "\<forall>x\<in>set xs. \<forall>y\<in>set xs. cmp' x y = cmp (f x) (f y) \<Longrightarrow>
   map f (array_sort cmp' xs) = array_sort cmp (map f xs)"
proof (induction xs)
  case Nil
  then show ?case by (simp add: array_sort_def)
next
  case (Cons x xs)
  then have ih: "map f (array_sort cmp' xs) = array_sort cmp (map f xs)" by simp
  from Cons.prems have "\<forall>y\<in>set (array_sort cmp' xs). cmp' x y = cmp (f x) (f y)"
    by (simp add: set_array_sort)
  from sort_insert_map [where cmp' = cmp' and cmp = cmp and f = f and x = x, OF this] ih
  show ?case by (simp add: array_sort_Cons)
qed

lemma keep_valid_deref:
  "keep_valid (map (deref h) els)
   = map (\<lambda>el. the (valid_at h el)) (filter (\<lambda>el. valid_at h el \<noteq> None) els)"
proof (induction els)
  case Nil
  then show ?case by simp
next
  case (Cons el els)
  show ?case
  proof (cases "deref h el")
    case None
    with Cons show ?thesis by (simp add: valid_at_def)
  next
    case (Some e)
    with Cons show ?thesis by (cases "node e") (simp_all add: valid_at_def)
  qed
qed

lemma filter_holds_at:
  "\<forall>el\<in>set E. valid_at h el \<noteq> None \<Longrightarrow>
   map (\<lambda>el. the (valid_at h el)) (filter (holds_at h p) E)
   = filter p (map (\<lambda>el. the (valid_at h el)) E)"
  by (induction E) (auto simp: holds_at_def)

lemma find_holds_at:
  "\<forall>el\<in>set E. valid_at h el \<noteq> None \<Longrightarrow>
   map_option (\<lambda>el. the (valid_at h el)) (find (holds_at h p) E)
   = find p (map (\<lambda>el. the (valid_at h el)) E)"
  by (induction E) (auto simp: holds_at_def)

lemma sort_compare_at:
  assumes "\<forall>el\<in>set M. valid_at h el \<noteq> None"
  shows "map (\<lambda>el. the (valid_at h el)) (array_sort (compare_at h) M)
         = array_sort by_favourites_desc (map (\<lambda>el. the (valid_at h el)) M)"
proof (rule array_sort_map, intro ballI)
  fix x y
  assume "x \<in> set M" and "y \<in> set M"
  with assms have "valid_at h x \<noteq> None" and "valid_at h y \<noteq> None" by blast+
  then obtain vx vy where "valid_at h x = Some vx" and "valid_at h y = Some vy" by auto
  then show "compare_at h x y = by_favourites_desc (the (valid_at h x)) (the (valid_at h y))"
    by (simp add: compare_at_def)
qed

lemma head_valid:
  assumes "\<forall>el\<in>set L. valid_at h el \<noteq> None"
  shows "(case L of e # _ \<Rightarrow> map_option g (valid_at h e) | [] \<Rightarrow> None)
         = (case map (\<lambda>el. the (valid_at h el)) L of e # _ \<Rightarrow> Some (g e) | [] \<Rightarrow> None)"
  using assms by (cases L) auto

text \<open>On the heap \<open>pickProtagonist\<close> returns what it returns on the list of the edges.\<close>

lemma pickProtagonist_heap_result:
  "fst (pickProtagonist_heap (Some a) h) = pickProtagonist (Some (map (deref h) (elements h a)))"
proof -
  let ?v = "\<lambda>el. the (valid_at h el)"
  let ?E = "filter (\<lambda>el. valid_at h el \<noteq> None) (elements h a)"
  let ?V = "keep_valid (map (deref h) (elements h a))"
  let ?M = "filter (holds_at h is_main) ?E"
  let ?F = "filter (holds_at h has_numeric_fav) ?E"
  have V: "?V = map ?v ?E" by (rule keep_valid_deref)
  have allE: "\<forall>el\<in>set ?E. valid_at h el \<noteq> None" by simp
  then have allM: "\<forall>el\<in>set ?M. valid_at h el \<noteq> None"
    and allF: "\<forall>el\<in>set ?F. valid_at h el \<noteq> None" by simp_all
  have M: "filter is_main ?V = map ?v ?M" unfolding V by (rule filter_holds_at [OF allE, symmetric])
  have F: "filter has_numeric_fav ?V = map ?v ?F"
    unfolding V by (rule filter_holds_at [OF allE, symmetric])
  have sM: "array_sort by_favourites_desc (filter is_main ?V)
            = map ?v (array_sort (compare_at h) ?M)"
    unfolding M by (rule sort_compare_at [OF allM, symmetric])
  have sF: "array_sort by_favourites_desc (filter has_numeric_fav ?V)
            = map ?v (array_sort (compare_at h) ?F)"
    unfolding F by (rule sort_compare_at [OF allF, symmetric])
  have hM: "(case ?M of e # _ \<Rightarrow> map_option protagonist_of (valid_at h e) | [] \<Rightarrow> None)
            = (case filter is_main ?V of e # _ \<Rightarrow> Some (protagonist_of e) | [] \<Rightarrow> None)"
    unfolding M by (rule head_valid [OF allM])
  have hsM: "(case array_sort (compare_at h) ?M of
                e # _ \<Rightarrow> map_option protagonist_of (valid_at h e) | [] \<Rightarrow> None)
            = (case array_sort by_favourites_desc (filter is_main ?V) of
                e # _ \<Rightarrow> Some (protagonist_of e) | [] \<Rightarrow> None)"
    unfolding sM using allM by (intro head_valid) (simp add: set_array_sort)
  have hsF: "(case array_sort (compare_at h) ?F of
                e # _ \<Rightarrow> map_option protagonist_of (valid_at h e) | [] \<Rightarrow> None)
            = (case array_sort by_favourites_desc (filter has_numeric_fav ?V) of
                e # _ \<Rightarrow> Some (protagonist_of e) | [] \<Rightarrow> None)"
    unfolding sF using allF by (intro head_valid) (simp add: set_array_sort)
  have fn: "(case find (holds_at h has_name) ?E of
               Some firstWithName \<Rightarrow> map_option protagonist_of (valid_at h firstWithName)
             | None \<Rightarrow> None)
            = (case find has_name ?V of
                 Some firstWithName \<Rightarrow> Some (protagonist_of firstWithName)
               | None \<Rightarrow> None)"
  proof (cases "find (holds_at h has_name) ?E")
    case None
    with find_holds_at [OF allE, of has_name] show ?thesis unfolding V by simp
  next
    case (Some el)
    then have "el \<in> set ?E" by (metis find_Some_iff nth_mem)
    with allE obtain w where w: "valid_at h el = Some w" by blast
    from find_holds_at [OF allE, of has_name]
    have "find has_name (map ?v ?E) = map_option ?v (Some el)" unfolding Some by (rule sym)
    then have r: "find has_name ?V = Some w" unfolding V by (simp add: w)
    show ?thesis unfolding Some r by (simp add: w)
  qed
  have lM: "length (filter is_main ?V) = length ?M" unfolding M by simp
  have lF: "length (filter has_numeric_fav ?V) = length ?F" unfolding F by simp
  have lE: "length ?V = length ?E" unfolding V by simp
  show ?thesis
    unfolding pickProtagonist_heap_entries pickProtagonist_def option.case Let_def
      hM hsM hsF fn
    using lM lF lE by (simp only: length_0_conv [symmetric])
qed

lemma pickMainStaff_heap_entries:
  "fst (pickMainStaff_heap (Some a) h) =
     (let edges = filter (\<lambda>el. valid_at h el \<noteq> None) (elements h a) in
      if edges = [] then None
      else
        let matching = filter (holds_at h has_creator_role) edges;
            candidates = (if matching = [] then edges else matching)
        in (case array_sort (compare_at h) candidates of
              pick # _ \<Rightarrow>
                map_option (\<lambda>v. \<lparr>staff_name = or_empty (name_full (vnode v))\<rparr>)
                  (valid_at h pick)
            | [] \<Rightarrow> None))"
  unfolding pickMainStaff_heap_def option.case Let_def case_prod_beta
  by (simp add: heap_reads split: list.split option.split)

lemma pickMainStaff_unfold:
  "pickMainStaff (Some ces)
   = (if keep_valid ces = [] then None
      else case array_sort by_favourites_desc
             (if filter has_creator_role (keep_valid ces) = [] then keep_valid ces
              else filter has_creator_role (keep_valid ces)) of
             pick # _ \<Rightarrow> Some \<lparr>staff_name = or_empty (name_full (vnode pick))\<rparr>
           | [] \<Rightarrow> None)"
  unfolding pickMainStaff_def option.case Let_def
  by (simp only: length_0_conv)

text \<open>On the heap \<open>pickMainStaff\<close> returns what it returns on the list of the edges.\<close>

lemma pickMainStaff_heap_result:
  "fst (pickMainStaff_heap (Some a) h) = pickMainStaff (Some (map (deref h) (elements h a)))"
proof -
  let ?v = "\<lambda>el. the (valid_at h el)"
  let ?E = "filter (\<lambda>el. valid_at h el \<noteq> None) (elements h a)"
  let ?V = "keep_valid (map (deref h) (elements h a))"
  let ?M = "filter (holds_at h has_creator_role) ?E"
  let ?C = "if ?M = [] then ?E else ?M"
  let ?g = "\<lambda>v. \<lparr>staff_name = or_empty (name_full (vnode v))\<rparr>"
  have V: "?V = map ?v ?E" by (rule keep_valid_deref)
  have allE: "\<forall>el\<in>set ?E. valid_at h el \<noteq> None" by simp
  then have allC: "\<forall>el\<in>set ?C. valid_at h el \<noteq> None" by simp
  have M: "filter has_creator_role ?V = map ?v ?M"
    unfolding V by (rule filter_holds_at [OF allE, symmetric])
  have C: "(if filter has_creator_role ?V = [] then ?V else filter has_creator_role ?V)
           = map ?v ?C"
  proof -
    have "map ?v ?C = (if ?M = [] then map ?v ?E else map ?v ?M)" by (rule if_distrib)
    then show ?thesis unfolding V M [unfolded V] by (simp only: map_is_Nil_conv)
  qed
  have sC: "array_sort by_favourites_desc (map ?v ?C) = map ?v (array_sort (compare_at h) ?C)"
    by (rule sort_compare_at [OF allC, symmetric])
  have allS: "\<forall>el\<in>set (array_sort (compare_at h) ?C). valid_at h el \<noteq> None"
    unfolding set_array_sort by (rule allC)
  have hC: "(case array_sort (compare_at h) ?C of
               pick # _ \<Rightarrow> map_option ?g (valid_at h pick) | [] \<Rightarrow> None)
            = (case array_sort by_favourites_desc (map ?v ?C) of
                 pick # _ \<Rightarrow> Some (?g pick) | [] \<Rightarrow> None)"
    unfolding sC by (rule head_valid [OF allS])
  have VE: "(?V = []) = (?E = [])" unfolding V by (simp only: map_is_Nil_conv)
  have "pickMainStaff (Some (map (deref h) (elements h a)))
        = (if ?V = [] then None
           else case array_sort by_favourites_desc
                  (if filter has_creator_role ?V = [] then ?V else filter has_creator_role ?V) of
                  pick # _ \<Rightarrow> Some (?g pick) | [] \<Rightarrow> None)"
    by (rule pickMainStaff_unfold)
  also have "\<dots> = (if ?E = [] then None
           else case array_sort (compare_at h) ?C of
                  pick # _ \<Rightarrow> map_option ?g (valid_at h pick) | [] \<Rightarrow> None)"
    unfolding C hC by (simp only: VE)
  also have "\<dots> = fst (pickMainStaff_heap (Some a) h)"
    by (simp only: pickMainStaff_heap_entries Let_def)
  finally show ?thesis by (rule sym)
qed


theorem selectors_leave_input_unchanged_witness:
  "0 < next_array example_heap
   \<and> arrays example_heap 0 = Some [Some 0, None, Some 1]
   \<and> arrays (snd (pickProtagonist_heap (Some 0) example_heap)) 0 = Some [Some 0, None, Some 1]
   \<and> arrays (snd (pickMainStaff_heap (Some 0) example_heap)) 0 = Some [Some 0, None, Some 1]
   \<and> arrays (snd (pickMainStaff_heap (Some 0) example_heap)) 1 = Some [Some 1, Some 0]
   \<and> objects (snd (pickMainStaff_heap (Some 0) example_heap)) 1 = objects example_heap 1
   \<and> fst (pickMainStaff_heap (Some 0) example_heap) = Some \<lparr>staff_name = ''B''\<rparr>"
proof -
  have a: "0 < next_array example_heap" by (simp add: example_heap_def)
  have b: "arrays example_heap 0 = Some [Some 0, None, Some 1]" by (simp add: example_heap_def)
  from selectors_leave_input_unchanged [of example_heap "Some 0"] a b
  have c: "arrays (snd (pickProtagonist_heap (Some 0) example_heap)) 0
           = Some [Some 0, None, Some 1]"
    and d: "arrays (snd (pickMainStaff_heap (Some 0) example_heap)) 0
           = Some [Some 0, None, Some 1]"
    and e: "objects (snd (pickMainStaff_heap (Some 0) example_heap)) 1 = objects example_heap 1"
    by simp_all
  have f: "arrays (snd (pickMainStaff_heap (Some 0) example_heap)) 1 = Some [Some 1, Some 0]"
    by code_simp
  have g: "fst (pickMainStaff_heap (Some 0) example_heap) = Some \<lparr>staff_name = ''B''\<rparr>"
    by code_simp
  from a b c d e f g show ?thesis by blast
qed

end
